theory Spec2Isabelle
  imports Main "HOL-Library.Monad_Syntax"
begin

section \<open>Nodes, pointers and the store\<close>

text \<open>
  A node pointer is an address or \<open>nullptr\<close> (\<open>None\<close>).  The store maps an address to the
  node allocated there; an address that was never allocated, or whose node was destroyed,
  maps to \<open>None\<close>.  Every operation returns an \<open>option\<close>: \<open>None\<close> stands for a run
  that dereferences a null or dangling pointer or that never leaves a loop.
\<close>

type_synonym addr = nat
type_synonym ptr = "addr option"

record 'a sb_tree_node =
  parent :: ptr
  left :: ptr
  right :: ptr
  nsize :: nat
  data :: 'a

record 'a sb_tree =
  comp :: "'a \<Rightarrow> 'a \<Rightarrow> bool"
  header :: addr
  heap :: "addr \<Rightarrow> 'a sb_tree_node option"
  fresh :: addr

definition rd :: "'a sb_tree \<Rightarrow> addr \<Rightarrow> ('a sb_tree_node \<Rightarrow> 'b) \<Rightarrow> 'b option" where
  "rd s a f = map_option f (heap s a)"

definition wr :: "'a sb_tree \<Rightarrow> addr \<Rightarrow> ('a sb_tree_node \<Rightarrow> 'a sb_tree_node) \<Rightarrow> 'a sb_tree option" where
  "wr s a f = (case heap s a of None \<Rightarrow> None
               | Some n \<Rightarrow> Some (s\<lparr>heap := (heap s)(a \<mapsto> f n)\<rparr>))"

definition set_parent :: "'a sb_tree \<Rightarrow> addr \<Rightarrow> ptr \<Rightarrow> 'a sb_tree option" where
  "set_parent s a p = wr s a (\<lambda>n. n\<lparr>parent := p\<rparr>)"

definition set_left :: "'a sb_tree \<Rightarrow> addr \<Rightarrow> ptr \<Rightarrow> 'a sb_tree option" where
  "set_left s a p = wr s a (\<lambda>n. n\<lparr>left := p\<rparr>)"

definition set_right :: "'a sb_tree \<Rightarrow> addr \<Rightarrow> ptr \<Rightarrow> 'a sb_tree option" where
  "set_right s a p = wr s a (\<lambda>n. n\<lparr>right := p\<rparr>)"

definition set_size :: "'a sb_tree \<Rightarrow> addr \<Rightarrow> nat \<Rightarrow> 'a sb_tree option" where
  "set_size s a k = wr s a (\<lambda>n. n\<lparr>nsize := k\<rparr>)"

text \<open>The recurring expression \<open>p ? p->size : 0\<close>.\<close>

definition size_or_zero :: "'a sb_tree \<Rightarrow> ptr \<Rightarrow> nat option" where
  "size_or_zero s p = (case p of None \<Rightarrow> Some 0 | Some a \<Rightarrow> rd s a nsize)"

text \<open>\<open>sb_tree_node_allocator::create_node\<close> and \<open>destroy_node\<close>: the allocator hands out
  an address that was never used; only the payload is constructed.\<close>

definition create_node :: "'a sb_tree \<Rightarrow> 'a \<Rightarrow> 'a sb_tree \<times> addr" where
  "create_node s v =
     (s\<lparr>heap := (heap s)(fresh s \<mapsto>
           \<lparr>parent = None, left = None, right = None, nsize = 0, data = v\<rparr>),
        fresh := Suc (fresh s)\<rparr>, fresh s)"

definition destroy_node :: "'a sb_tree \<Rightarrow> addr \<Rightarrow> 'a sb_tree option" where
  "destroy_node s p = (case heap s p of None \<Rightarrow> None
                       | Some n \<Rightarrow> Some (s\<lparr>heap := (heap s)(p := None)\<rparr>))"

section \<open>Construction and capacity\<close>

text \<open>The constructor with \<open>create_header\<close>: the header is its own leftmost and rightmost
  node and has no root.  Its payload is \<open>value_type()\<close>, here the argument \<open>d\<close>.\<close>

definition sb_tree_new :: "('a \<Rightarrow> 'a \<Rightarrow> bool) \<Rightarrow> 'a \<Rightarrow> 'a sb_tree" where
  "sb_tree_new c d =
     \<lparr>comp = c, header = 0,
      heap = (\<lambda>_. None)(0 \<mapsto> \<lparr>parent = None, left = Some 0, right = Some 0, nsize = 0, data = d\<rparr>),
      fresh = 1\<rparr>"

definition empty :: "'a sb_tree \<Rightarrow> bool option" where
  "empty s = do { hp \<leftarrow> rd s (header s) parent; Some (hp = None) }"

definition tree_size :: "'a sb_tree \<Rightarrow> nat option" where
  "tree_size s = do { hp \<leftarrow> rd s (header s) parent; size_or_zero s hp }"

definition begin_it :: "'a sb_tree \<Rightarrow> ptr option" where
  "begin_it s = rd s (header s) left"

definition end_it :: "'a sb_tree \<Rightarrow> addr" where
  "end_it s = header s"

section \<open>Navigation\<close>

partial_function (option) leftmost :: "'a sb_tree \<Rightarrow> addr \<Rightarrow> addr option" where
  "leftmost s t = do {
     l \<leftarrow> rd s t left;
     case l of None \<Rightarrow> Some t | Some t' \<Rightarrow> leftmost s t' }"

partial_function (option) rightmost :: "'a sb_tree \<Rightarrow> addr \<Rightarrow> addr option" where
  "rightmost s t = do {
     r \<leftarrow> rd s t right;
     case r of None \<Rightarrow> Some t | Some t' \<Rightarrow> rightmost s t' }"

text \<open>\<open>sb_tree_iterator::operator++\<close>.  The climbing loop
  \<open>while (node == p->right) { node = p; p = p->parent; }\<close> dereferences \<open>p\<close>.\<close>

partial_function (option) inc_climb :: "'a sb_tree \<Rightarrow> addr \<Rightarrow> ptr \<Rightarrow> (addr \<times> addr) option" where
  "inc_climb s node p = do {
     pa \<leftarrow> p;
     pr \<leftarrow> rd s pa right;
     if pr = Some node then do { pp \<leftarrow> rd s pa parent; inc_climb s pa pp }
     else Some (node, pa) }"

definition inc :: "'a sb_tree \<Rightarrow> addr \<Rightarrow> addr option" where
  "inc s node = do {
     r \<leftarrow> rd s node right;
     case r of
       Some r' \<Rightarrow> leftmost s r'
     | None \<Rightarrow> do {
         p \<leftarrow> rd s node parent;
         (node', p') \<leftarrow> inc_climb s node p;
         nr \<leftarrow> rd s node' right;
         Some (if nr \<noteq> Some p' then p' else node') } }"

text \<open>\<open>sb_tree_iterator::operator--\<close>.  The first branch stores \<open>node->right\<close>, which may
  be null, so the result is a pointer.\<close>

partial_function (option) dec_climb :: "'a sb_tree \<Rightarrow> addr \<Rightarrow> ptr \<Rightarrow> ptr option" where
  "dec_climb s node p = do {
     pa \<leftarrow> p;
     pl \<leftarrow> rd s pa left;
     if pl = Some node then do { pp \<leftarrow> rd s pa parent; dec_climb s pa pp }
     else Some (Some pa) }"

definition dec :: "'a sb_tree \<Rightarrow> addr \<Rightarrow> ptr option" where
  "dec s node = do {
     np \<leftarrow> rd s node parent;
     special \<leftarrow> (case np of None \<Rightarrow> Some True
                 | Some p \<Rightarrow> do { pp \<leftarrow> rd s p parent; Some (pp = Some node) });
     if special then rd s node right
     else do {
       l \<leftarrow> rd s node left;
       case l of
         Some l' \<Rightarrow> map_option Some (rightmost s l')
       | None \<Rightarrow> dec_climb s node np } }"


section \<open>Queries\<close>

partial_function (option) lower_bound_loop ::
  "'a sb_tree \<Rightarrow> 'a \<Rightarrow> addr \<Rightarrow> ptr \<Rightarrow> addr option" where
  "lower_bound_loop s key pre cur =
     (case cur of None \<Rightarrow> Some pre
      | Some c \<Rightarrow> do {
          d \<leftarrow> rd s c data;
          if \<not> comp s d key then do { l \<leftarrow> rd s c left; lower_bound_loop s key c l }
          else do { r \<leftarrow> rd s c right; lower_bound_loop s key pre r } })"

definition lower_bound_node :: "'a sb_tree \<Rightarrow> 'a \<Rightarrow> addr option" where
  "lower_bound_node s key = do {
     cur \<leftarrow> rd s (header s) parent;
     lower_bound_loop s key (header s) cur }"

definition find_node :: "'a sb_tree \<Rightarrow> 'a \<Rightarrow> addr option" where
  "find_node s key = do {
     cur \<leftarrow> rd s (header s) parent;
     pre \<leftarrow> lower_bound_loop s key (header s) cur;
     d \<leftarrow> rd s pre data;
     Some (if comp s key d then header s else pre) }"

partial_function (option) upper_bound_loop ::
  "'a sb_tree \<Rightarrow> 'a \<Rightarrow> addr \<Rightarrow> ptr \<Rightarrow> addr option" where
  "upper_bound_loop s key pre cur =
     (case cur of None \<Rightarrow> Some pre
      | Some c \<Rightarrow> do {
          d \<leftarrow> rd s c data;
          if comp s key d then do { l \<leftarrow> rd s c left; upper_bound_loop s key c l }
          else do { r \<leftarrow> rd s c right; upper_bound_loop s key pre r } })"

definition upper_bound_node :: "'a sb_tree \<Rightarrow> 'a \<Rightarrow> addr option" where
  "upper_bound_node s key = do {
     cur \<leftarrow> rd s (header s) parent;
     upper_bound_loop s key (header s) cur }"

partial_function (option) select_loop :: "'a sb_tree \<Rightarrow> ptr \<Rightarrow> nat \<Rightarrow> addr option" where
  "select_loop s t k =
     (case t of None \<Rightarrow> Some (header s)
      | Some a \<Rightarrow> do {
          l \<leftarrow> rd s a left;
          left_size \<leftarrow> size_or_zero s l;
          if left_size < k then do { r \<leftarrow> rd s a right; select_loop s r (k - (left_size + 1)) }
          else if k < left_size then select_loop s l k
          else Some a })"

definition select_node :: "'a sb_tree \<Rightarrow> nat \<Rightarrow> addr option" where
  "select_node s k = do { t \<leftarrow> rd s (header s) parent; select_loop s t k }"

text \<open>\<open>static_cast<size_type>(-1)\<close> for a 64-bit \<open>size_type\<close>.\<close>

definition npos :: nat where
  "npos = 2 ^ 64 - 1"

partial_function (option) rank_loop ::
  "'a sb_tree \<Rightarrow> 'a \<Rightarrow> nat \<Rightarrow> addr \<Rightarrow> ptr \<Rightarrow> (nat \<times> addr) option" where
  "rank_loop s key rank pre cur =
     (case cur of None \<Rightarrow> Some (rank, pre)
      | Some c \<Rightarrow> do {
          d \<leftarrow> rd s c data;
          if \<not> comp s d key then do { l \<leftarrow> rd s c left; rank_loop s key rank c l }
          else do {
            l \<leftarrow> rd s c left;
            k \<leftarrow> (case l of Some l' \<Rightarrow> do { ls \<leftarrow> rd s l' nsize; Some (ls + 1) } | None \<Rightarrow> Some 1);
            r \<leftarrow> rd s c right;
            rank_loop s key (rank + k) pre r } })"

definition rank_node :: "'a sb_tree \<Rightarrow> 'a \<Rightarrow> nat option" where
  "rank_node s key = do {
     cur \<leftarrow> rd s (header s) parent;
     (rank, pre) \<leftarrow> rank_loop s key 0 (header s) cur;
     d \<leftarrow> rd s pre data;
     Some (if pre = header s \<or> comp s key d then npos else rank) }"

datatype error = Domain_error | Out_of_range

text \<open>\<open>at\<close>.  In \<open>return itr->data;\<close> the arrow is \<open>operator->\<close> of the iterator, which
  yields the address of the payload \<open>node->data\<close>; the expression therefore selects the member
  \<open>data\<close> of the payload.  The element type has to provide that member: it is the
  parameter \<open>member_data\<close>.\<close>

definition at :: "'a sb_tree \<Rightarrow> ('a \<Rightarrow> 'a) \<Rightarrow> 'a \<Rightarrow> (error + 'a) option" where
  "at s member_data key = do {
     e \<leftarrow> empty s;
     if e then Some (Inl Domain_error)
     else do {
       itr \<leftarrow> find_node s key;
       if itr = end_it s then Some (Inl Out_of_range)
       else do { d \<leftarrow> rd s itr data; Some (Inr (member_data d)) } } }"

section \<open>Rotations and rebalancing\<close>

text \<open>The slot update shared by the rotations and by \<open>erase_node\<close>:
  \<open>if (t == header->parent) header->parent = x;
   else if (t == t->parent->left) t->parent->left = x; else t->parent->right = x;\<close>\<close>

definition left_rotate :: "'a sb_tree \<Rightarrow> addr \<Rightarrow> ('a sb_tree \<times> addr) option" where
  "left_rotate s t = do {
     tr \<leftarrow> rd s t right;
     r \<leftarrow> tr;
     rl \<leftarrow> rd s r left;
     s \<leftarrow> set_right s t rl;
     rl \<leftarrow> rd s r left;
     s \<leftarrow> (case rl of None \<Rightarrow> Some s | Some a \<Rightarrow> set_parent s a (Some t));
     tp \<leftarrow> rd s t parent;
     s \<leftarrow> set_parent s r tp;
     hp \<leftarrow> rd s (header s) parent;
     s \<leftarrow> (if hp = Some t then set_parent s (header s) (Some r)
          else do {
            tp \<leftarrow> rd s t parent;
            p \<leftarrow> tp;
            pl \<leftarrow> rd s p left;
            if pl = Some t then set_left s p (Some r) else set_right s p (Some r) });
     s \<leftarrow> set_left s r (Some t);
     ts \<leftarrow> rd s t nsize;
     s \<leftarrow> set_size s r ts;
     s \<leftarrow> set_parent s t (Some r);
     tl \<leftarrow> rd s t left;
     ls \<leftarrow> size_or_zero s tl;
     tr \<leftarrow> rd s t right;
     rs \<leftarrow> size_or_zero s tr;
     s \<leftarrow> set_size s t (ls + rs + 1);
     Some (s, r) }"

definition right_rotate :: "'a sb_tree \<Rightarrow> addr \<Rightarrow> ('a sb_tree \<times> addr) option" where
  "right_rotate s t = do {
     tl \<leftarrow> rd s t left;
     l \<leftarrow> tl;
     lr \<leftarrow> rd s l right;
     s \<leftarrow> set_left s t lr;
     lr \<leftarrow> rd s l right;
     s \<leftarrow> (case lr of None \<Rightarrow> Some s | Some a \<Rightarrow> set_parent s a (Some t));
     tp \<leftarrow> rd s t parent;
     s \<leftarrow> set_parent s l tp;
     hp \<leftarrow> rd s (header s) parent;
     s \<leftarrow> (if hp = Some t then set_parent s (header s) (Some l)
          else do {
            tp \<leftarrow> rd s t parent;
            p \<leftarrow> tp;
            pr \<leftarrow> rd s p right;
            if pr = Some t then set_right s p (Some l) else set_left s p (Some l) });
     s \<leftarrow> set_right s l (Some t);
     ts \<leftarrow> rd s t nsize;
     s \<leftarrow> set_size s l ts;
     s \<leftarrow> set_parent s t (Some l);
     tl \<leftarrow> rd s t left;
     ls \<leftarrow> size_or_zero s tl;
     tr \<leftarrow> rd s t right;
     rs \<leftarrow> size_or_zero s tr;
     s \<leftarrow> set_size s t (ls + rs + 1);
     Some (s, l) }"

text \<open>The conditions \<open>t->right->left && left_size < t->right->left->size\<close> and its three
  siblings: the size of a grandchild is read only when the grandchild exists.\<close>

definition exceeds :: "'a sb_tree \<Rightarrow> ptr \<Rightarrow> nat \<Rightarrow> bool option" where
  "exceeds s g k = (case g of None \<Rightarrow> Some False
                    | Some a \<Rightarrow> do { gs \<leftarrow> rd s a nsize; Some (k < gs) })"

partial_function (option) insert_rebalance ::
  "'a sb_tree \<Rightarrow> addr \<Rightarrow> bool \<Rightarrow> ('a sb_tree \<times> addr) option" where
  "insert_rebalance s t flag =
     (if flag then do {
        tr \<leftarrow> rd s t right;
        case tr of None \<Rightarrow> Some (s, t)
        | Some r \<Rightarrow> do {
            tl \<leftarrow> rd s t left;
            left_size \<leftarrow> size_or_zero s tl;
            rl \<leftarrow> rd s r left;
            c1 \<leftarrow> exceeds s rl left_size;
            if c1 then do {
              (s, r') \<leftarrow> right_rotate s r;
              s \<leftarrow> set_right s t (Some r');
              (s, t) \<leftarrow> left_rotate s t;
              tl \<leftarrow> rd s t left; l \<leftarrow> tl;
              (s, l') \<leftarrow> insert_rebalance s l False;
              s \<leftarrow> set_left s t (Some l');
              tr \<leftarrow> rd s t right; r \<leftarrow> tr;
              (s, r') \<leftarrow> insert_rebalance s r True;
              s \<leftarrow> set_right s t (Some r');
              insert_rebalance s t True }
            else do {
              rr \<leftarrow> rd s r right;
              c2 \<leftarrow> exceeds s rr left_size;
              if c2 then do {
                (s, t) \<leftarrow> left_rotate s t;
                tl \<leftarrow> rd s t left; l \<leftarrow> tl;
                (s, l') \<leftarrow> insert_rebalance s l False;
                s \<leftarrow> set_left s t (Some l');
                insert_rebalance s t True }
              else Some (s, t) } } }
      else do {
        tl \<leftarrow> rd s t left;
        case tl of None \<Rightarrow> Some (s, t)
        | Some l \<Rightarrow> do {
            tr \<leftarrow> rd s t right;
            right_size \<leftarrow> size_or_zero s tr;
            lr \<leftarrow> rd s l right;
            c3 \<leftarrow> exceeds s lr right_size;
            if c3 then do {
              (s, l') \<leftarrow> left_rotate s l;
              s \<leftarrow> set_left s t (Some l');
              (s, t) \<leftarrow> right_rotate s t;
              tl \<leftarrow> rd s t left; l \<leftarrow> tl;
              (s, l') \<leftarrow> insert_rebalance s l False;
              s \<leftarrow> set_left s t (Some l');
              tr \<leftarrow> rd s t right; r \<leftarrow> tr;
              (s, r') \<leftarrow> insert_rebalance s r True;
              s \<leftarrow> set_right s t (Some r');
              insert_rebalance s t False }
            else do {
              ll \<leftarrow> rd s l left;
              c4 \<leftarrow> exceeds s ll right_size;
              if c4 then do {
                (s, t) \<leftarrow> right_rotate s t;
                tr \<leftarrow> rd s t right; r \<leftarrow> tr;
                (s, r') \<leftarrow> insert_rebalance s r True;
                s \<leftarrow> set_right s t (Some r');
                insert_rebalance s t False }
              else Some (s, t) } } })"

partial_function (option) erase_rebalance ::
  "'a sb_tree \<Rightarrow> addr \<Rightarrow> bool \<Rightarrow> ('a sb_tree \<times> addr) option" where
  "erase_rebalance s t flag =
     (if \<not> flag then do {
        tr \<leftarrow> rd s t right;
        case tr of None \<Rightarrow> Some (s, t)
        | Some r \<Rightarrow> do {
            tl \<leftarrow> rd s t left;
            left_size \<leftarrow> size_or_zero s tl;
            rl \<leftarrow> rd s r left;
            c1 \<leftarrow> exceeds s rl left_size;
            if c1 then do {
              (s, r') \<leftarrow> right_rotate s r;
              s \<leftarrow> set_right s t (Some r');
              (s, t) \<leftarrow> left_rotate s t;
              tl \<leftarrow> rd s t left; l \<leftarrow> tl;
              (s, l') \<leftarrow> erase_rebalance s l True;
              s \<leftarrow> set_left s t (Some l');
              tr \<leftarrow> rd s t right; r \<leftarrow> tr;
              (s, r') \<leftarrow> erase_rebalance s r False;
              s \<leftarrow> set_right s t (Some r');
              erase_rebalance s t False }
            else do {
              rr \<leftarrow> rd s r right;
              c2 \<leftarrow> exceeds s rr left_size;
              if c2 then do {
                (s, t) \<leftarrow> left_rotate s t;
                tl \<leftarrow> rd s t left; l \<leftarrow> tl;
                (s, l') \<leftarrow> erase_rebalance s l True;
                s \<leftarrow> set_left s t (Some l');
                erase_rebalance s t False }
              else Some (s, t) } } }
      else do {
        tl \<leftarrow> rd s t left;
        case tl of None \<Rightarrow> Some (s, t)
        | Some l \<Rightarrow> do {
            tr \<leftarrow> rd s t right;
            right_size \<leftarrow> size_or_zero s tr;
            lr \<leftarrow> rd s l right;
            c3 \<leftarrow> exceeds s lr right_size;
            if c3 then do {
              (s, l') \<leftarrow> left_rotate s l;
              s \<leftarrow> set_left s t (Some l');
              (s, t) \<leftarrow> right_rotate s t;
              tl \<leftarrow> rd s t left; l \<leftarrow> tl;
              (s, l') \<leftarrow> erase_rebalance s l True;
              s \<leftarrow> set_left s t (Some l');
              tr \<leftarrow> rd s t right; r \<leftarrow> tr;
              (s, r') \<leftarrow> erase_rebalance s r False;
              s \<leftarrow> set_right s t (Some r');
              erase_rebalance s t True }
            else do {
              ll \<leftarrow> rd s l left;
              c4 \<leftarrow> exceeds s ll right_size;
              if c4 then do {
                (s, t) \<leftarrow> right_rotate s t;
                tr \<leftarrow> rd s t right; r \<leftarrow> tr;
                (s, r') \<leftarrow> erase_rebalance s r False;
                s \<leftarrow> set_right s t (Some r');
                erase_rebalance s t True }
              else Some (s, t) } } })"


section \<open>Insertion\<close>

text \<open>The loop \<open>do { t = insert_rebalance(t->parent, t == t->parent->right); }
  while (t->parent != header);\<close> of both insertion functions.\<close>

partial_function (option) insert_climb :: "'a sb_tree \<Rightarrow> addr \<Rightarrow> 'a sb_tree option" where
  "insert_climb s t = do {
     tp \<leftarrow> rd s t parent;
     p \<leftarrow> tp;
     pr \<leftarrow> rd s p right;
     (s, t) \<leftarrow> insert_rebalance s p (pr = Some t);
     tp \<leftarrow> rd s t parent;
     if tp \<noteq> Some (header s) then insert_climb s t else Some s }"

text \<open>The body of \<open>while (t)\<close> in \<open>insert_equal_node\<close>, for a non-null \<open>t\<close>.\<close>

partial_function (option) insert_equal_loop ::
  "'a sb_tree \<Rightarrow> addr \<Rightarrow> addr \<Rightarrow> 'a sb_tree option" where
  "insert_equal_loop s n t = do {
     ts \<leftarrow> rd s t nsize;
     s \<leftarrow> set_size s t (ts + 1);
     nd \<leftarrow> rd s n data;
     td \<leftarrow> rd s t data;
     if comp s nd td then do {
       tl \<leftarrow> rd s t left;
       case tl of
         Some l \<Rightarrow> insert_equal_loop s n l
       | None \<Rightarrow> do {
           s \<leftarrow> set_parent s n (Some t);
           s \<leftarrow> set_left s t (Some n);
           hl \<leftarrow> rd s (header s) left;
           s \<leftarrow> (if hl = Some t then set_left s (header s) (Some n) else Some s);
           insert_climb s t } }
     else do {
       tr \<leftarrow> rd s t right;
       case tr of
         Some r \<Rightarrow> insert_equal_loop s n r
       | None \<Rightarrow> do {
           s \<leftarrow> set_parent s n (Some t);
           s \<leftarrow> set_right s t (Some n);
           hr \<leftarrow> rd s (header s) right;
           s \<leftarrow> (if hr = Some t then set_right s (header s) (Some n) else Some s);
           insert_climb s t } } }"

definition insert_equal_node :: "'a sb_tree \<Rightarrow> 'a \<Rightarrow> ('a sb_tree \<times> addr) option" where
  "insert_equal_node s v = do {
     (s, n) \<leftarrow> Some (create_node s v);
     s \<leftarrow> set_left s n None;
     s \<leftarrow> set_right s n None;
     s \<leftarrow> set_size s n 1;
     hp \<leftarrow> rd s (header s) parent;
     case hp of
       Some root \<Rightarrow> do { s \<leftarrow> insert_equal_loop s n root; Some (s, n) }
     | None \<Rightarrow> do {
         s \<leftarrow> set_parent s n (Some (header s));
         s \<leftarrow> set_parent s (header s) (Some n);
         s \<leftarrow> set_left s (header s) (Some n);
         s \<leftarrow> set_right s (header s) (Some n);
         Some (s, n) } }"

text \<open>\<open>for (node_pointer p = t; p != header; p = p->parent) ++p->size;\<close>\<close>

partial_function (option) inc_sizes :: "'a sb_tree \<Rightarrow> ptr \<Rightarrow> 'a sb_tree option" where
  "inc_sizes s p =
     (if p = Some (header s) then Some s
      else do {
        a \<leftarrow> p;
        k \<leftarrow> rd s a nsize;
        s \<leftarrow> set_size s a (k + 1);
        pp \<leftarrow> rd s a parent;
        inc_sizes s pp })"

partial_function (option) insert_unique_loop ::
  "'a sb_tree \<Rightarrow> 'a \<Rightarrow> addr \<Rightarrow> ('a sb_tree \<times> addr \<times> bool) option" where
  "insert_unique_loop s val t = do {
     td \<leftarrow> rd s t data;
     if comp s val td then do {
       tl \<leftarrow> rd s t left;
       case tl of
         Some l \<Rightarrow> insert_unique_loop s val l
       | None \<Rightarrow> do {
           (s, n) \<leftarrow> Some (create_node s val);
           s \<leftarrow> set_left s n None;
           s \<leftarrow> set_right s n None;
           s \<leftarrow> set_size s n 1;
           s \<leftarrow> set_parent s n (Some t);
           s \<leftarrow> set_left s t (Some n);
           hl \<leftarrow> rd s (header s) left;
           s \<leftarrow> (if hl = Some t then set_left s (header s) (Some n) else Some s);
           s \<leftarrow> inc_sizes s (Some t);
           s \<leftarrow> insert_climb s t;
           Some (s, n, True) } }
     else if \<not> comp s td val then Some (s, t, False)
     else do {
       tr \<leftarrow> rd s t right;
       case tr of
         Some r \<Rightarrow> insert_unique_loop s val r
       | None \<Rightarrow> do {
           (s, n) \<leftarrow> Some (create_node s val);
           s \<leftarrow> set_left s n None;
           s \<leftarrow> set_right s n None;
           s \<leftarrow> set_size s n 1;
           s \<leftarrow> set_parent s n (Some t);
           s \<leftarrow> set_right s t (Some n);
           hr \<leftarrow> rd s (header s) right;
           s \<leftarrow> (if hr = Some t then set_right s (header s) (Some n) else Some s);
           s \<leftarrow> inc_sizes s (Some t);
           s \<leftarrow> insert_climb s t;
           Some (s, n, True) } } }"

definition insert_unique_node :: "'a sb_tree \<Rightarrow> 'a \<Rightarrow> ('a sb_tree \<times> addr \<times> bool) option" where
  "insert_unique_node s val = do {
     hp \<leftarrow> rd s (header s) parent;
     case hp of
       Some root \<Rightarrow> insert_unique_loop s val root
     | None \<Rightarrow> do {
         (s, n) \<leftarrow> Some (create_node s val);
         s \<leftarrow> set_left s n None;
         s \<leftarrow> set_right s n None;
         s \<leftarrow> set_size s n 1;
         s \<leftarrow> set_parent s n (Some (header s));
         s \<leftarrow> set_parent s (header s) (Some n);
         s \<leftarrow> set_left s (header s) (Some n);
         s \<leftarrow> set_right s (header s) (Some n);
         Some (s, n, True) } }"

section \<open>Erasure\<close>

text \<open>\<open>for (node_pointer p = ...; p != header; p = p->parent) --p->size;\<close>  The sizes are
  of type \<open>size_t\<close>; a decrement of zero would wrap around, and is a failed run here, so
  that a run that succeeds never wrapped.\<close>

partial_function (option) dec_sizes :: "'a sb_tree \<Rightarrow> ptr \<Rightarrow> 'a sb_tree option" where
  "dec_sizes s p =
     (if p = Some (header s) then Some s
      else do {
        a \<leftarrow> p;
        k \<leftarrow> rd s a nsize;
        s \<leftarrow> (if k = 0 then None else set_size s a (k - 1));
        pp \<leftarrow> rd s a parent;
        dec_sizes s pp })"

text \<open>\<open>while (p != header) p = erase_rebalance(p->parent, p == p->parent->right);\<close>\<close>

partial_function (option) erase_climb :: "'a sb_tree \<Rightarrow> addr \<Rightarrow> 'a sb_tree option" where
  "erase_climb s p =
     (if p = header s then Some s
      else do {
        pp \<leftarrow> rd s p parent;
        q \<leftarrow> pp;
        qr \<leftarrow> rd s q right;
        (s, p) \<leftarrow> erase_rebalance s q (qr = Some p);
        erase_climb s p })"

text \<open>\<open>if (t == header->parent) header->parent = x; else if (t == t->parent->left)
  t->parent->left = x; else t->parent->right = x;\<close>\<close>

definition replace_child :: "'a sb_tree \<Rightarrow> addr \<Rightarrow> ptr \<Rightarrow> 'a sb_tree option" where
  "replace_child s t x = do {
     hp \<leftarrow> rd s (header s) parent;
     if hp = Some t then set_parent s (header s) x
     else do {
       tp \<leftarrow> rd s t parent;
       p \<leftarrow> tp;
       pl \<leftarrow> rd s p left;
       if pl = Some t then set_left s p x else set_right s p x } }"

text \<open>Case 2 of \<open>erase_node\<close>, up to the comment \<open>rebalance after deletion\<close>: the
  replacement \<open>x\<close> is unlinked and takes the place of \<open>t\<close>.  The result holds \<open>x\<close>, the
  node \<open>parent\<close> where rebalancing starts, and \<open>flag\<close>.\<close>

definition erase_two_children ::
  "'a sb_tree \<Rightarrow> addr \<Rightarrow> ('a sb_tree \<times> addr \<times> addr \<times> bool) option" where
  "erase_two_children s t = do {
     tl \<leftarrow> rd s t left; l \<leftarrow> tl;
     tr \<leftarrow> rd s t right; r \<leftarrow> tr;
     ls \<leftarrow> rd s l nsize;
     rs \<leftarrow> rd s r nsize;
     if ls < rs then do {
       x \<leftarrow> leftmost s r;
       xp \<leftarrow> rd s x parent;
       xpa \<leftarrow> xp;
       xpr \<leftarrow> rd s xpa right;
       flag \<leftarrow> Some (xpr = Some x);
       s \<leftarrow> dec_sizes s xp;
       tl \<leftarrow> rd s t left; l \<leftarrow> tl;
       s \<leftarrow> set_parent s l (Some x);
       tl \<leftarrow> rd s t left;
       s \<leftarrow> set_left s x tl;
       tr \<leftarrow> rd s t right;
       (s, parent') \<leftarrow> (if Some x \<noteq> tr then do {
           xp \<leftarrow> rd s x parent; xpa \<leftarrow> xp;
           xr \<leftarrow> rd s x right;
           s \<leftarrow> set_left s xpa xr;
           xr \<leftarrow> rd s x right;
           s \<leftarrow> (case xr of None \<Rightarrow> Some s
                | Some xra \<Rightarrow> do { xp \<leftarrow> rd s x parent; set_parent s xra xp });
           tr \<leftarrow> rd s t right; r \<leftarrow> tr;
           s \<leftarrow> set_parent s r (Some x);
           tr \<leftarrow> rd s t right;
           s \<leftarrow> set_right s x tr;
           xp \<leftarrow> rd s x parent; xpa \<leftarrow> xp;
           Some (s, xpa) }
         else Some (s, x));
       s \<leftarrow> replace_child s t (Some x);
       tp \<leftarrow> rd s t parent;
       s \<leftarrow> set_parent s x tp;
       ts \<leftarrow> rd s t nsize;
       s \<leftarrow> set_size s x ts;
       Some (s, x, parent', flag) }
     else do {
       x \<leftarrow> rightmost s l;
       xp \<leftarrow> rd s x parent;
       xpa \<leftarrow> xp;
       xpr \<leftarrow> rd s xpa right;
       flag \<leftarrow> Some (xpr = Some x);
       s \<leftarrow> dec_sizes s xp;
       tr \<leftarrow> rd s t right; r \<leftarrow> tr;
       s \<leftarrow> set_parent s r (Some x);
       tr \<leftarrow> rd s t right;
       s \<leftarrow> set_right s x tr;
       tl \<leftarrow> rd s t left;
       (s, parent') \<leftarrow> (if Some x \<noteq> tl then do {
           xp \<leftarrow> rd s x parent; xpa \<leftarrow> xp;
           xl \<leftarrow> rd s x left;
           s \<leftarrow> set_right s xpa xl;
           xl \<leftarrow> rd s x left;
           s \<leftarrow> (case xl of None \<Rightarrow> Some s
                | Some xla \<Rightarrow> do { xp \<leftarrow> rd s x parent; set_parent s xla xp });
           tl \<leftarrow> rd s t left; l \<leftarrow> tl;
           s \<leftarrow> set_parent s l (Some x);
           tl \<leftarrow> rd s t left;
           s \<leftarrow> set_left s x tl;
           xp \<leftarrow> rd s x parent; xpa \<leftarrow> xp;
           Some (s, xpa) }
         else Some (s, x));
       s \<leftarrow> replace_child s t (Some x);
       tp \<leftarrow> rd s t parent;
       s \<leftarrow> set_parent s x tp;
       ts \<leftarrow> rd s t nsize;
       s \<leftarrow> set_size s x ts;
       Some (s, x, parent', flag) } }"

text \<open>Case 1 of \<open>erase_node\<close>: \<open>t\<close> has one child at most.\<close>

definition erase_one_child :: "'a sb_tree \<Rightarrow> addr \<Rightarrow> 'a sb_tree option" where
  "erase_one_child s t = do {
     tl \<leftarrow> rd s t left;
     tr \<leftarrow> rd s t right;
     x \<leftarrow> Some (if tl \<noteq> None then tl else tr);
     tp \<leftarrow> rd s t parent;
     p \<leftarrow> tp;
     pr \<leftarrow> rd s p right;
     flag \<leftarrow> Some (pr = Some t);
     s \<leftarrow> (case x of None \<Rightarrow> Some s | Some xa \<Rightarrow> set_parent s xa tp);
     s \<leftarrow> replace_child s t x;
     hl \<leftarrow> rd s (header s) left;
     s \<leftarrow> (if hl = Some t then do {
            tp \<leftarrow> rd s t parent;
            m \<leftarrow> (case x of Some xa \<Rightarrow> map_option Some (leftmost s xa) | None \<Rightarrow> Some tp);
            set_left s (header s) m }
          else Some s);
     hr \<leftarrow> rd s (header s) right;
     s \<leftarrow> (if hr = Some t then do {
            tp \<leftarrow> rd s t parent;
            m \<leftarrow> (case x of Some xa \<Rightarrow> map_option Some (rightmost s xa) | None \<Rightarrow> Some tp);
            set_right s (header s) m }
          else Some s);
     tp \<leftarrow> rd s t parent;
     s \<leftarrow> dec_sizes s tp;
     if t \<noteq> header s then do {
       tp \<leftarrow> rd s t parent;
       q \<leftarrow> tp;
       (s, p) \<leftarrow> erase_rebalance s q flag;
       erase_climb s p }
     else Some s }"

definition erase_node :: "'a sb_tree \<Rightarrow> addr \<Rightarrow> 'a sb_tree option" where
  "erase_node s t = do {
     tl \<leftarrow> rd s t left;
     tr \<leftarrow> rd s t right;
     s \<leftarrow> (if tl = None \<or> tr = None then erase_one_child s t
          else do {
            (s, x, parent', flag) \<leftarrow> erase_two_children s t;
            (s, p) \<leftarrow> erase_rebalance s parent' flag;
            erase_climb s p });
     destroy_node s t }"

text \<open>\<open>erase(const_iterator pos)\<close>.\<close>

definition erase_pos :: "'a sb_tree \<Rightarrow> addr \<Rightarrow> ('a sb_tree \<times> addr) option" where
  "erase_pos s pos =
     (if pos \<noteq> end_it s then do {
        next \<leftarrow> inc s pos;
        s \<leftarrow> erase_node s pos;
        Some (s, next) }
      else Some (s, pos))"

text \<open>\<open>erase(const KeyType& key)\<close>.  In its loop
  \<open>while (first != last) { ++n; erase(first++); }\<close> the argument \<open>first++\<close> is an \<open>iterator\<close>.
  For it the member template \<open>erase(const KeyType&)\<close> with \<open>KeyType = iterator\<close> is an exact
  match, while \<open>erase(const_iterator)\<close> needs the conversion to \<open>const_iterator\<close>; so the call
  is the template again, with the iterator as its key, and \<open>erase_node\<close> is never reached.
  The comparator then receives the iterator where it expects a key: the conversion of an
  iterator to the key type is the parameter \<open>key_of\<close> (for an element type without such a
  conversion, \<open>int\<close> say, the function is ill-formed).  A job is either a call of the
  template or its loop.\<close>

datatype 'a erase_job = By_key 'a | Loop addr addr nat

partial_function (option) erase_key_run ::
  "'a sb_tree \<Rightarrow> (addr \<Rightarrow> 'a) \<Rightarrow> 'a erase_job \<Rightarrow> ('a sb_tree \<times> nat) option" where
  "erase_key_run s key_of job =
     (case job of
        By_key key \<Rightarrow> do {
          first \<leftarrow> lower_bound_node s key;
          lst \<leftarrow> upper_bound_node s key;
          erase_key_run s key_of (Loop first lst 0) }
      | Loop first lst n \<Rightarrow>
          if first \<noteq> lst then do {
            first' \<leftarrow> inc s first;
            (s, _) \<leftarrow> erase_key_run s key_of (By_key (key_of first));
            erase_key_run s key_of (Loop first' lst (n + 1)) }
          else Some (s, n))"

definition erase_key :: "'a sb_tree \<Rightarrow> (addr \<Rightarrow> 'a) \<Rightarrow> 'a \<Rightarrow> ('a sb_tree \<times> nat) option" where
  "erase_key s key_of key = erase_key_run s key_of (By_key key)"

declare leftmost.simps [code] rightmost.simps [code] inc_climb.simps [code]
  dec_climb.simps [code] lower_bound_loop.simps [code] upper_bound_loop.simps [code]
  select_loop.simps [code] rank_loop.simps [code] insert_rebalance.simps [code]
  erase_rebalance.simps [code] insert_climb.simps [code] insert_equal_loop.simps [code]
  inc_sizes.simps [code] insert_unique_loop.simps [code] dec_sizes.simps [code]
  erase_climb.simps [code] erase_key_run.simps [code]

section \<open>Abstraction: the tree of addresses that a store holds\<close>

datatype atree = Lf | Nd atree addr atree

fun nodes :: "atree \<Rightarrow> addr set" where
  "nodes Lf = {}"
| "nodes (Nd l a r) = insert a (nodes l \<union> nodes r)"

fun inorder :: "atree \<Rightarrow> addr list" where
  "inorder Lf = []"
| "inorder (Nd l a r) = inorder l @ a # inorder r"

fun sz :: "atree \<Rightarrow> nat" where
  "sz Lf = 0"
| "sz (Nd l a r) = sz l + sz r + 1"

fun root_ptr :: "atree \<Rightarrow> ptr" where
  "root_ptr Lf = None"
| "root_ptr (Nd l a r) = Some a"

text \<open>\<open>shape h par t\<close>: in the store \<open>h\<close> the nodes of \<open>t\<close> are allocated, pairwise
  different, linked by their child pointers as \<open>t\<close> says, and every node points back to its
  parent; the root of \<open>t\<close> points back to \<open>par\<close>.\<close>

fun shape :: "(addr \<Rightarrow> 'a sb_tree_node option) \<Rightarrow> ptr \<Rightarrow> atree \<Rightarrow> bool" where
  "shape h par Lf = True"
| "shape h par (Nd l a r) =
     (a \<notin> nodes l \<and> a \<notin> nodes r \<and> nodes l \<inter> nodes r = {} \<and>
      (\<exists>n. h a = Some n \<and> parent n = par \<and> left n = root_ptr l \<and> right n = root_ptr r) \<and>
      shape h (Some a) l \<and> shape h (Some a) r)"

text \<open>\<open>sized h t\<close>: every node of \<open>t\<close> stores the number of nodes of its subtree.\<close>

fun sized :: "(addr \<Rightarrow> 'a sb_tree_node option) \<Rightarrow> atree \<Rightarrow> bool" where
  "sized h Lf = True"
| "sized h (Nd l a r) =
     ((\<exists>n. h a = Some n \<and> nsize n = sz l + sz r + 1) \<and> sized h l \<and> sized h r)"

definition val :: "(addr \<Rightarrow> 'a sb_tree_node option) \<Rightarrow> addr \<Rightarrow> 'a" where
  "val h a = data (the (h a))"

definition strict_weak_order :: "('a \<Rightarrow> 'a \<Rightarrow> bool) \<Rightarrow> bool" where
  "strict_weak_order c \<longleftrightarrow>
     (\<forall>a. \<not> c a a) \<and> (\<forall>a b d. c a b \<longrightarrow> c b d \<longrightarrow> c a d) \<and>
     (\<forall>a b d. \<not> c a b \<longrightarrow> \<not> c b d \<longrightarrow> \<not> c a d)"

definition equiv :: "('a \<Rightarrow> 'a \<Rightarrow> bool) \<Rightarrow> 'a \<Rightarrow> 'a \<Rightarrow> bool" where
  "equiv c a b \<longleftrightarrow> \<not> c a b \<and> \<not> c b a"

text \<open>The in-order sequence is non-decreasing: no element is less than an earlier one.\<close>

definition ordered :: "'a sb_tree \<Rightarrow> addr list \<Rightarrow> bool" where
  "ordered s xs \<longleftrightarrow> sorted_wrt (\<lambda>a b. \<not> comp s (val (heap s) b) (val (heap s) a)) xs"

text \<open>The header convention of the data model: \<open>parent\<close> holds the root, \<open>left\<close> and \<open>right\<close>
  the first and the last node in order, or the header itself when the tree is empty.\<close>

definition header_ok :: "'a sb_tree \<Rightarrow> atree \<Rightarrow> bool" where
  "header_ok s t \<longleftrightarrow> header s \<notin> nodes t \<and>
     (\<exists>n. heap s (header s) = Some n \<and> parent n = root_ptr t \<and> nsize n = 0 \<and>
        left n = Some (if t = Lf then header s else hd (inorder t)) \<and>
        right n = Some (if t = Lf then header s else last (inorder t)))"

definition wf_tree :: "'a sb_tree \<Rightarrow> atree \<Rightarrow> bool" where
  "wf_tree s t \<longleftrightarrow> strict_weak_order (comp s) \<and> header_ok s t \<and>
     shape (heap s) (Some (header s)) t \<and> sized (heap s) t \<and> ordered s (inorder t)"

text \<open>The first element of a list that satisfies \<open>P\<close>, or \<open>d\<close> when there is none.\<close>

definition first_from :: "('b \<Rightarrow> bool) \<Rightarrow> 'b list \<Rightarrow> 'b \<Rightarrow> 'b" where
  "first_from P xs d = (case List.find P xs of None \<Rightarrow> d | Some x \<Rightarrow> x)"

section \<open>Abstraction of the splice of erase\<close>

text \<open>The subtree rooted at an address, the tree without its first and without its last
  node, the nodes from the root down to an address, and, for the leftmost (rightmost) node
  of a tree, its proper ancestors, its parent pointer and its right (left) subtree.\<close>

fun sub :: "atree \<Rightarrow> addr \<Rightarrow> atree" where
  "sub Lf a = Lf"
| "sub (Nd l b r) a = (if a = b then Nd l b r else if a \<in> nodes l then sub l a else sub r a)"










text \<open>The store with the size fields of the nodes in \<open>P\<close> decremented.\<close>

definition dec_on :: "addr set \<Rightarrow> (addr \<Rightarrow> 'a sb_tree_node option) \<Rightarrow> addr \<Rightarrow> 'a sb_tree_node option" where
  "dec_on P h = (\<lambda>c. if c \<in> P then map_option (\<lambda>n. n\<lparr>nsize := nsize n - 1\<rparr>) (h c) else h c)"


section \<open>Traversal and concrete trees\<close>

text \<open>The loop \<open>for (it = begin(); it != end(); ++it)\<close> of a client, collecting the nodes
  it visits.\<close>

partial_function (option) collect :: "'a sb_tree \<Rightarrow> addr \<Rightarrow> addr list option" where
  "collect s it =
     (if it = end_it s then Some []
      else do { next \<leftarrow> inc s it; rest \<leftarrow> collect s next; Some (it # rest) })"

definition traverse :: "'a sb_tree \<Rightarrow> addr list option" where
  "traverse s = do { b \<leftarrow> begin_it s; it \<leftarrow> b; collect s it }"

text \<open>The tree built by \<open>insert_unique(2)\<close>, \<open>insert_unique(1)\<close>, \<open>insert_unique(3)\<close> on an
  empty tree of integers ordered by \<open><\<close>: the root \<open>2\<close> is at address 1, its left child \<open>1\<close>
  at address 2, its right child \<open>3\<close> at address 3; the header is at address 0.\<close>

definition tree_213 :: "int sb_tree option" where
  "tree_213 = do {
     (s, _, _) \<leftarrow> insert_unique_node (sb_tree_new (<) 0) 2;
     (s, _, _) \<leftarrow> insert_unique_node s 1;
     (s, _, _) \<leftarrow> insert_unique_node s 3;
     Some s }"

definition node_213 :: "int sb_tree" where
  "node_213 =
     \<lparr>comp = (<), header = 0,
      heap = (\<lambda>_. None)
        (0 \<mapsto> \<lparr>parent = Some 1, left = Some 2, right = Some 3, nsize = 0, data = 0\<rparr>,
         1 \<mapsto> \<lparr>parent = Some 0, left = Some 2, right = Some 3, nsize = 3, data = 2\<rparr>,
         2 \<mapsto> \<lparr>parent = Some 1, left = None, right = None, nsize = 1, data = 1\<rparr>,
         3 \<mapsto> \<lparr>parent = Some 1, left = None, right = None, nsize = 1, data = 3\<rparr>),
      fresh = 4\<rparr>"

definition shape_213 :: atree where
  "shape_213 = Nd (Nd Lf 2 Lf) 1 (Nd Lf 3 Lf)"

text \<open>The tree built by three calls \<open>insert_equal(2)\<close>.\<close>

definition tree_222 :: "int sb_tree option" where
  "tree_222 = do {
     (s, _) \<leftarrow> insert_equal_node (sb_tree_new (<) 0) 2;
     (s, _) \<leftarrow> insert_equal_node s 2;
     (s, _) \<leftarrow> insert_equal_node s 2;
     Some s }"

definition node_222 :: "int sb_tree" where
  "node_222 =
     \<lparr>comp = (<), header = 0,
      heap = (\<lambda>_. None)
        (0 \<mapsto> \<lparr>parent = Some 2, left = Some 1, right = Some 3, nsize = 0, data = 0\<rparr>,
         1 \<mapsto> \<lparr>parent = Some 2, left = None, right = None, nsize = 1, data = 2\<rparr>,
         2 \<mapsto> \<lparr>parent = Some 0, left = Some 1, right = Some 3, nsize = 3, data = 2\<rparr>,
         3 \<mapsto> \<lparr>parent = Some 2, left = None, right = None, nsize = 1, data = 2\<rparr>),
      fresh = 4\<rparr>"







section \<open>Evaluation of concrete runs\<close>

text \<open>A monadic bind is evaluated from the left: the continuation is only looked at once
  the first computation has produced its value.\<close>

lemma bind_weak_cong: "m = m' \<Longrightarrow> Option.bind m f = Option.bind m' f"
  by simp

lemmas sb_tree_defs = rd_def wr_def set_parent_def set_left_def set_right_def set_size_def
  size_or_zero_def create_node_def destroy_node_def sb_tree_new_def empty_def tree_size_def
  begin_it_def end_it_def inc_def dec_def lower_bound_node_def find_node_def
  upper_bound_node_def select_node_def rank_node_def at_def left_rotate_def right_rotate_def
  exceeds_def insert_equal_node_def insert_unique_node_def replace_child_def
  erase_two_children_def erase_one_child_def erase_node_def erase_pos_def erase_key_def
  traverse_def

lemmas sb_tree_loops = leftmost.simps rightmost.simps inc_climb.simps dec_climb.simps
  lower_bound_loop.simps upper_bound_loop.simps select_loop.simps rank_loop.simps
  insert_rebalance.simps erase_rebalance.simps insert_climb.simps insert_equal_loop.simps
  inc_sizes.simps insert_unique_loop.simps dec_sizes.simps erase_climb.simps
  erase_key_run.simps collect.simps

lemma tree_213_eq: "tree_213 = Some node_213"
  by (simp add: tree_213_def node_213_def sb_tree_defs sb_tree_loops fun_eq_iff
      cong: bind_weak_cong)

lemma strict_weak_order_less: "strict_weak_order ((<) :: int \<Rightarrow> int \<Rightarrow> bool)"
  unfolding strict_weak_order_def by auto

lemma wf_tree_213: "wf_tree node_213 shape_213"
  by (simp add: wf_tree_def header_ok_def ordered_def val_def node_213_def shape_213_def
      strict_weak_order_less)

lemma wf_tree_new: "strict_weak_order c \<Longrightarrow> wf_tree (sb_tree_new c d) Lf"
  by (simp add: wf_tree_def header_ok_def ordered_def sb_tree_new_def)

subsection \<open>Basic facts\<close>

lemma set_inorder [simp]: "set (inorder t) = nodes t"
  by (induction t) auto

lemma length_inorder [simp]: "length (inorder t) = sz t"
  by (induction t) auto

lemma shape_distinct: "shape h par t \<Longrightarrow> distinct (inorder t)"
  by (induction t arbitrary: par) auto

lemma shape_alloc: "shape h par t \<Longrightarrow> a \<in> nodes t \<Longrightarrow> \<exists>n. h a = Some n"
  by (induction t arbitrary: par) auto

lemma root_ptr_None [simp]: "root_ptr t = None \<longleftrightarrow> t = Lf"
  by (cases t) auto

lemma root_ptr_Some: "root_ptr t = Some a \<longleftrightarrow> (\<exists>l r. t = Nd l a r)"
  by (cases t) auto

lemma sz_0 [simp]: "sz t = 0 \<longleftrightarrow> t = Lf"
  by (cases t) auto

lemma swo_asym: "strict_weak_order c \<Longrightarrow> c a b \<Longrightarrow> \<not> c b a"
  unfolding strict_weak_order_def by blast

lemma swo_trans: "strict_weak_order c \<Longrightarrow> c a b \<Longrightarrow> c b d \<Longrightarrow> c a d"
  unfolding strict_weak_order_def by blast

lemma swo_ntrans: "strict_weak_order c \<Longrightarrow> \<not> c a b \<Longrightarrow> \<not> c b d \<Longrightarrow> \<not> c a d"
  unfolding strict_weak_order_def by blast

lemma swo_le_less: "strict_weak_order c \<Longrightarrow> \<not> c b a \<Longrightarrow> c b d \<Longrightarrow> c a d"
  unfolding strict_weak_order_def by blast

lemma swo_less_le: "strict_weak_order c \<Longrightarrow> c a b \<Longrightarrow> \<not> c d b \<Longrightarrow> c a d"
  unfolding strict_weak_order_def by blast


subsection \<open>Reading a well-shaped store\<close>

lemma shape_rd:
  assumes "shape (heap s) par (Nd l a r)"
  shows "rd s a left = Some (root_ptr l)" "rd s a right = Some (root_ptr r)"
    "rd s a parent = Some par" "rd s a data = Some (val (heap s) a)"
  using assms by (auto simp: rd_def val_def)

lemma sized_rd:
  assumes "sized (heap s) (Nd l a r)"
  shows "rd s a nsize = Some (sz l + sz r + 1)"
  using assms by (auto simp: rd_def)

lemma size_or_zero_sized:
  "sized (heap s) t \<Longrightarrow> size_or_zero s (root_ptr t) = Some (sz t)"
  by (cases t) (auto simp: size_or_zero_def rd_def)

lemma header_ok_rd:
  assumes "header_ok s t"
  shows "rd s (header s) parent = Some (root_ptr t)"
    "rd s (header s) left = Some (Some (if t = Lf then header s else hd (inorder t)))"
    "rd s (header s) right = Some (Some (if t = Lf then header s else last (inorder t)))"
  using assms by (auto simp: header_ok_def rd_def)

subsection \<open>\<open>select\<close>\<close>

lemma select_loop_spec:
  "shape (heap s) par t \<Longrightarrow> sized (heap s) t \<Longrightarrow>
   select_loop s (root_ptr t) k = Some (if k < sz t then inorder t ! k else header s)"
proof (induction t arbitrary: k par)
  case Lf
  show ?case by (subst select_loop.simps) simp
next
  case (Nd l a r)
  have sl: "select_loop s (root_ptr l) k = Some (if k < sz l then inorder l ! k else header s)"
    using Nd.IH(1) [of "Some a" k] Nd.prems by auto
  have sr: "select_loop s (root_ptr r) (k - Suc (sz l)) =
      Some (if k - Suc (sz l) < sz r then inorder r ! (k - Suc (sz l)) else header s)"
    using Nd.IH(2) [of "Some a" "k - Suc (sz l)"] Nd.prems by auto
  have szl: "size_or_zero s (root_ptr l) = Some (sz l)"
    using Nd.prems by (auto intro: size_or_zero_sized)
  show ?case
    by (subst select_loop.simps)
       (auto simp: shape_rd [OF Nd.prems(1)] szl sl sr nth_append)
qed

lemma select_node_spec:
  assumes "wf_tree s t"
  shows "select_node s k = Some (if k < sz t then inorder t ! k else header s)"
  using assms select_loop_spec [of s "Some (header s)" t k]
  by (auto simp: select_node_def wf_tree_def header_ok_rd)

lemma tree_size_spec:
  assumes "wf_tree s t"
  shows "tree_size s = Some (sz t)"
  using assms by (auto simp: tree_size_def wf_tree_def header_ok_rd size_or_zero_sized)

lemma empty_spec:
  assumes "wf_tree s t"
  shows "empty s = Some (t = Lf)"
  using assms by (auto simp: empty_def wf_tree_def header_ok_rd)

subsection \<open>Binary search\<close>

lemma first_from_Nil [simp]: "first_from P [] d = d"
  by (simp add: first_from_def)

lemma first_from_append:
  "first_from P (xs @ ys) d = first_from P xs (first_from P ys d)"
  by (induction xs) (auto simp: first_from_def)

lemma first_from_Cons:
  "first_from P (x # xs) d = (if P x then x else first_from P xs d)"
  by (auto simp: first_from_def)

lemma first_from_none: "\<forall>x\<in>set xs. \<not> P x \<Longrightarrow> first_from P xs d = d"
  by (induction xs) (auto simp: first_from_Cons)

lemma first_from_cases:
  "(first_from P xs d = d \<and> (\<forall>x\<in>set xs. \<not> P x)) \<or>
   (\<exists>ys zs. xs = ys @ first_from P xs d # zs \<and> P (first_from P xs d) \<and> (\<forall>y\<in>set ys. \<not> P y))"
proof (induction xs)
  case Nil
  show ?case by simp
next
  case (Cons x xs)
  show ?case
  proof (cases "P x")
    case True
    then have "x # xs = [] @ first_from P (x # xs) d # xs \<and> P (first_from P (x # xs) d)"
      by (simp add: first_from_Cons)
    then show ?thesis by (metis empty_iff list.set(1))
  next
    case False
    from Cons show ?thesis
    proof
      assume "first_from P xs d = d \<and> (\<forall>x\<in>set xs. \<not> P x)"
      with False show ?thesis by (auto simp: first_from_Cons)
    next
      assume "\<exists>ys zs. xs = ys @ first_from P xs d # zs \<and> P (first_from P xs d) \<and> (\<forall>y\<in>set ys. \<not> P y)"
      then obtain ys zs where *: "xs = ys @ first_from P xs d # zs" "P (first_from P xs d)"
        "\<forall>y\<in>set ys. \<not> P y" by blast
      have "x # xs = (x # ys) @ first_from P (x # xs) d # zs"
        using False *(1) by (simp add: first_from_Cons)
      moreover have "P (first_from P (x # xs) d)" using False *(2) by (simp add: first_from_Cons)
      moreover have "\<forall>y\<in>set (x # ys). \<not> P y" using False *(3) by simp
      ultimately show ?thesis by blast
    qed
  qed
qed

lemma ordered_append:
  "ordered s (xs @ ys) \<longleftrightarrow> ordered s xs \<and> ordered s ys \<and>
     (\<forall>x\<in>set xs. \<forall>y\<in>set ys. \<not> comp s (val (heap s) y) (val (heap s) x))"
  by (auto simp: ordered_def sorted_wrt_append)

lemma ordered_Cons:
  "ordered s (x # xs) \<longleftrightarrow> ordered s xs \<and> (\<forall>y\<in>set xs. \<not> comp s (val (heap s) y) (val (heap s) x))"
  by (auto simp: ordered_def)

lemma lower_bound_loop_spec:
  "shape (heap s) par t \<Longrightarrow> ordered s (inorder t) \<Longrightarrow> strict_weak_order (comp s) \<Longrightarrow>
   lower_bound_loop s key pre (root_ptr t) =
     Some (first_from (\<lambda>x. \<not> comp s (val (heap s) x) key) (inorder t) pre)"
proof (induction t arbitrary: pre par)
  case Lf
  show ?case by (subst lower_bound_loop.simps) simp
next
  case (Nd l a r)
  let ?P = "\<lambda>x. \<not> comp s (val (heap s) x) key"
  have ol: "ordered s (inorder l)" and or: "ordered s (inorder r)"
    and la: "\<forall>x\<in>nodes l. \<not> comp s (val (heap s) a) (val (heap s) x)"
    and ar: "\<forall>y\<in>nodes r. \<not> comp s (val (heap s) y) (val (heap s) a)"
    using Nd.prems(2) by (auto simp: ordered_append ordered_Cons)
  have sl: "shape (heap s) (Some a) l" and sr: "shape (heap s) (Some a) r"
    using Nd.prems(1) by auto
  show ?case
  proof (cases "comp s (val (heap s) a) key")
    case True
    have "\<forall>x\<in>set (inorder l). \<not> ?P x"
      using la True swo_le_less [OF Nd.prems(3)] by auto
    then have "first_from ?P (inorder l) d = d" for d
      by (rule first_from_none)
    then have "first_from ?P (inorder (Nd l a r)) pre = first_from ?P (inorder r) pre"
      using True by (simp add: first_from_append first_from_Cons)
    then show ?thesis
      using True Nd.IH(2) [OF sr or Nd.prems(3), of pre]
      by (subst lower_bound_loop.simps) (simp add: shape_rd [OF Nd.prems(1)])
  next
    case False
    have "first_from ?P (inorder (Nd l a r)) pre = first_from ?P (inorder l) a"
      using False by (simp add: first_from_append first_from_Cons)
    then show ?thesis
      using False Nd.IH(1) [OF sl ol Nd.prems(3), of a]
      by (subst lower_bound_loop.simps) (simp add: shape_rd [OF Nd.prems(1)])
  qed
qed

lemma upper_bound_loop_spec:
  "shape (heap s) par t \<Longrightarrow> ordered s (inorder t) \<Longrightarrow> strict_weak_order (comp s) \<Longrightarrow>
   upper_bound_loop s key pre (root_ptr t) =
     Some (first_from (\<lambda>x. comp s key (val (heap s) x)) (inorder t) pre)"
proof (induction t arbitrary: pre par)
  case Lf
  show ?case by (subst upper_bound_loop.simps) simp
next
  case (Nd l a r)
  let ?P = "\<lambda>x. comp s key (val (heap s) x)"
  have ol: "ordered s (inorder l)" and or: "ordered s (inorder r)"
    and la: "\<forall>x\<in>nodes l. \<not> comp s (val (heap s) a) (val (heap s) x)"
    and ar: "\<forall>y\<in>nodes r. \<not> comp s (val (heap s) y) (val (heap s) a)"
    using Nd.prems(2) by (auto simp: ordered_append ordered_Cons)
  have sl: "shape (heap s) (Some a) l" and sr: "shape (heap s) (Some a) r"
    using Nd.prems(1) by auto
  show ?case
  proof (cases "comp s key (val (heap s) a)")
    case False
    have "\<forall>x\<in>set (inorder l). \<not> ?P x"
      using la False swo_ntrans [OF Nd.prems(3)] by auto
    then have "first_from ?P (inorder l) d = d" for d
      by (rule first_from_none)
    then have "first_from ?P (inorder (Nd l a r)) pre = first_from ?P (inorder r) pre"
      using False by (simp add: first_from_append first_from_Cons)
    then show ?thesis
      using False Nd.IH(2) [OF sr or Nd.prems(3), of pre]
      by (subst upper_bound_loop.simps) (simp add: shape_rd [OF Nd.prems(1)])
  next
    case True
    have "first_from ?P (inorder (Nd l a r)) pre = first_from ?P (inorder l) a"
      using True by (simp add: first_from_append first_from_Cons)
    then show ?thesis
      using True Nd.IH(1) [OF sl ol Nd.prems(3), of a]
      by (subst upper_bound_loop.simps) (simp add: shape_rd [OF Nd.prems(1)])
  qed
qed


lemma less_prefix:
  assumes "ordered s (ys @ x # zs)" and "strict_weak_order (comp s)"
    and "\<forall>y\<in>set ys. comp s (val (heap s) y) key" and "\<not> comp s (val (heap s) x) key"
  shows "filter (\<lambda>y. comp s (val (heap s) y) key) (ys @ x # zs) = ys"
proof -
  have "\<forall>z\<in>set zs. \<not> comp s (val (heap s) z) (val (heap s) x)"
    using assms(1) by (auto simp: ordered_append ordered_Cons)
  then have "\<forall>z\<in>set zs. \<not> comp s (val (heap s) z) key"
    using swo_ntrans [OF assms(2)] assms(4) by blast
  then have "filter (\<lambda>y. comp s (val (heap s) y) key) zs = []"
    by (induction zs) auto
  moreover have "filter (\<lambda>y. comp s (val (heap s) y) key) ys = ys"
    using assms(3) by (induction ys) auto
  ultimately show ?thesis using assms(4) by simp
qed

lemma rank_loop_spec:
  "shape (heap s) par t \<Longrightarrow> sized (heap s) t \<Longrightarrow> ordered s (inorder t) \<Longrightarrow>
   strict_weak_order (comp s) \<Longrightarrow>
   rank_loop s key k pre (root_ptr t) =
     Some (k + length (filter (\<lambda>x. comp s (val (heap s) x) key) (inorder t)),
           first_from (\<lambda>x. \<not> comp s (val (heap s) x) key) (inorder t) pre)"
proof (induction t arbitrary: k pre par)
  case Lf
  show ?case by (subst rank_loop.simps) simp
next
  case (Nd l a r)
  let ?P = "\<lambda>x. \<not> comp s (val (heap s) x) key"
  let ?Q = "\<lambda>x. comp s (val (heap s) x) key"
  have ol: "ordered s (inorder l)" and or: "ordered s (inorder r)"
    and la: "\<forall>x\<in>nodes l. \<not> comp s (val (heap s) a) (val (heap s) x)"
    and ar: "\<forall>y\<in>nodes r. \<not> comp s (val (heap s) y) (val (heap s) a)"
    using Nd.prems(3) by (auto simp: ordered_append ordered_Cons)
  have sl: "shape (heap s) (Some a) l" and sr: "shape (heap s) (Some a) r"
    and zl: "sized (heap s) l" and zr: "sized (heap s) r"
    using Nd.prems(1,2) by auto
  have lsz: "(case root_ptr l of Some l' \<Rightarrow> do { ls \<leftarrow> rd s l' nsize; Some (ls + 1) }
      | None \<Rightarrow> Some 1) = Some (sz l + 1)"
    using zl by (cases l) (auto simp: rd_def)
  note rds = shape_rd [OF Nd.prems(1)]
  show ?case
  proof (cases "comp s (val (heap s) a) key")
    case True
    have allq: "\<forall>x\<in>set (inorder l). ?Q x"
      using la True swo_le_less [OF Nd.prems(4)] by auto
    then have "first_from ?P (inorder l) d = d" for d
      by (intro first_from_none) auto
    then have f: "first_from ?P (inorder l @ a # inorder r) pre = first_from ?P (inorder r) pre"
      using True by (simp add: first_from_append first_from_Cons)
    have "filter ?Q (inorder l) = inorder l"
      using allq by (simp add: filter_id_conv)
    then have c: "length (filter ?Q (inorder l @ a # inorder r)) =
        sz l + 1 + length (filter ?Q (inorder r))"
      using True by simp
    have "rank_loop s key k pre (Some a) = rank_loop s key (k + (sz l + 1)) pre (root_ptr r)"
      using True by (subst rank_loop.simps) (simp add: rds lsz)
    also have "\<dots> = Some (k + (sz l + 1) + length (filter ?Q (inorder r)),
        first_from ?P (inorder r) pre)"
      by (rule Nd.IH(2) [OF sr zr or Nd.prems(4)])
    finally show ?thesis
      unfolding root_ptr.simps inorder.simps f c by simp
  next
    case False
    have "\<forall>y\<in>set (inorder r). \<not> ?Q y"
      using ar False swo_ntrans [OF Nd.prems(4)] by auto
    then have "filter ?Q (inorder r) = []"
      by simp
    then have c: "length (filter ?Q (inorder l @ a # inorder r)) = length (filter ?Q (inorder l))"
      using False by simp
    have f: "first_from ?P (inorder l @ a # inorder r) pre = first_from ?P (inorder l) a"
      using False by (simp add: first_from_append first_from_Cons)
    have "rank_loop s key k pre (Some a) = rank_loop s key k a (root_ptr l)"
      using False by (subst rank_loop.simps) (simp add: rds)
    also have "\<dots> = Some (k + length (filter ?Q (inorder l)), first_from ?P (inorder l) a)"
      by (rule Nd.IH(1) [OF sl zl ol Nd.prems(4)])
    finally show ?thesis
      unfolding root_ptr.simps inorder.simps f c by simp
  qed
qed

text \<open>The first element that is not less than the key is equivalent to it exactly when
  some element is.\<close>

lemma lower_bound_equiv:
  fixes key :: 'a
  assumes "ordered s xs" and "strict_weak_order (comp s)" and "d \<notin> set xs"
    and x_def: "x = first_from (\<lambda>x. \<not> comp s (val (heap s) x) key) xs d"
  shows "(\<exists>a\<in>set xs. equiv (comp s) (val (heap s) a) key) \<longleftrightarrow>
         x \<noteq> d \<and> \<not> comp s key (val (heap s) x)"
proof -
  let ?P = "\<lambda>x. \<not> comp s (val (heap s) x) key"
  from first_from_cases [of ?P xs d]
  show ?thesis
  proof
    assume "first_from ?P xs d = d \<and> (\<forall>x\<in>set xs. \<not> ?P x)"
    then show ?thesis by (auto simp: x_def equiv_def)
  next
    assume "\<exists>ys zs. xs = ys @ first_from ?P xs d # zs \<and> ?P (first_from ?P xs d) \<and>
       (\<forall>y\<in>set ys. \<not> ?P y)"
    then obtain ys zs where xs: "xs = ys @ x # zs" and px: "?P x" and ys: "\<forall>y\<in>set ys. \<not> ?P y"
      unfolding x_def by blast
    have xd: "x \<noteq> d" using xs assms(3) by auto
    have zs: "\<forall>z\<in>set zs. \<not> comp s (val (heap s) z) (val (heap s) x)"
      using assms(1) xs by (auto simp: ordered_append ordered_Cons)
    show ?thesis
    proof
      assume "\<exists>a\<in>set xs. equiv (comp s) (val (heap s) a) key"
      then obtain a where a: "a \<in> set xs" "\<not> comp s (val (heap s) a) key"
        "\<not> comp s key (val (heap s) a)" by (auto simp: equiv_def)
      have "a \<notin> set ys" using ys a(2) by auto
      then have "a = x \<or> a \<in> set zs" using a(1) xs by auto
      moreover have "\<not> comp s (val (heap s) x) (val (heap s) x)"
        using assms(2) unfolding strict_weak_order_def by blast
      ultimately have "\<not> comp s (val (heap s) a) (val (heap s) x)"
        using zs by blast
      then have "\<not> comp s key (val (heap s) x)"
        using swo_ntrans [OF assms(2) a(3)] by blast
      with xd show "x \<noteq> d \<and> \<not> comp s key (val (heap s) x)" by simp
    next
      assume "x \<noteq> d \<and> \<not> comp s key (val (heap s) x)"
      then have "equiv (comp s) (val (heap s) x) key" using px by (simp add: equiv_def)
      moreover have "x \<in> set xs" using xs by simp
      ultimately show "\<exists>a\<in>set xs. equiv (comp s) (val (heap s) a) key" by blast
    qed
  qed
qed

lemma first_from_in: "first_from P xs d \<noteq> d \<Longrightarrow> first_from P xs d \<in> set xs"
  by (induction xs) (auto simp: first_from_Cons)


subsection \<open>\<open>find\<close>, \<open>rank\<close> and the rejected \<open>insert_unique\<close>\<close>

lemma wf_tree_val_header:
  assumes "wf_tree s t"
  shows "\<exists>d. rd s (header s) data = Some d"
  using assms by (auto simp: wf_tree_def header_ok_def rd_def)

lemma wf_tree_rd_data:
  assumes "wf_tree s t" and "a \<in> nodes t"
  shows "rd s a data = Some (val (heap s) a)"
proof -
  from assms obtain n where "heap s a = Some n"
    using shape_alloc [of "heap s" "Some (header s)" t a] by (auto simp: wf_tree_def)
  then show ?thesis by (simp add: rd_def val_def)
qed

lemma lower_bound_node_spec:
  assumes "wf_tree s t"
  shows "lower_bound_node s key =
    Some (first_from (\<lambda>x. \<not> comp s (val (heap s) x) key) (inorder t) (header s))"
  using assms lower_bound_loop_spec [of s "Some (header s)" t key "header s"]
  by (auto simp: lower_bound_node_def wf_tree_def header_ok_rd)

lemma upper_bound_node_spec:
  assumes "wf_tree s t"
  shows "upper_bound_node s key =
    Some (first_from (\<lambda>x. comp s key (val (heap s) x)) (inorder t) (header s))"
  using assms upper_bound_loop_spec [of s "Some (header s)" t key "header s"]
  by (auto simp: upper_bound_node_def wf_tree_def header_ok_rd)

lemma find_node_spec:
  assumes "wf_tree s t"
  shows "\<exists>p. find_node s key = Some p \<and>
     (if \<exists>a\<in>nodes t. equiv (comp s) (val (heap s) a) key
      then p \<in> nodes t \<and> equiv (comp s) (val (heap s) p) key
      else p = header s)"
proof -
  let ?P = "\<lambda>x. \<not> comp s (val (heap s) x) key"
  let ?x = "first_from ?P (inorder t) (header s)"
  have lb: "lower_bound_loop s key (header s) (root_ptr t) = Some ?x"
    using assms lower_bound_loop_spec [of s "Some (header s)" t key "header s"]
    by (auto simp: wf_tree_def)
  have hp: "rd s (header s) parent = Some (root_ptr t)"
    using assms by (auto simp: wf_tree_def header_ok_rd)
  have hn: "header s \<notin> nodes t"
    using assms by (auto simp: wf_tree_def header_ok_def)
  have eq: "(\<exists>a\<in>set (inorder t). equiv (comp s) (val (heap s) a) key) \<longleftrightarrow>
      ?x \<noteq> header s \<and> \<not> comp s key (val (heap s) ?x)"
    using assms hn by (intro lower_bound_equiv) (auto simp: wf_tree_def)
  show ?thesis
  proof (cases "?x = header s")
    case True
    obtain d where d: "rd s (header s) data = Some d"
      using wf_tree_val_header [OF assms] by blast
    have "find_node s key = Some (header s)"
      using True lb hp d by (simp add: find_node_def)
    then show ?thesis using eq True by simp
  next
    case False
    then have xin: "?x \<in> nodes t" using first_from_in [of ?P "inorder t" "header s"] by simp
    have d: "rd s ?x data = Some (val (heap s) ?x)"
      by (rule wf_tree_rd_data [OF assms xin])
    have fn: "find_node s key = Some (if comp s key (val (heap s) ?x) then header s else ?x)"
      using lb hp d by (simp add: find_node_def)
    have px: "?P ?x" using first_from_cases [of ?P "inorder t" "header s"] False by auto
    show ?thesis
    proof (cases "comp s key (val (heap s) ?x)")
      case True
      then show ?thesis using fn eq by simp
    next
      case nc: False
      then have "equiv (comp s) (val (heap s) ?x) key" using px by (simp add: equiv_def)
      then show ?thesis using fn nc xin by auto
    qed
  qed
qed

lemma rank_node_spec:
  assumes "wf_tree s t" and "a \<in> nodes t" and "equiv (comp s) (val (heap s) a) key"
  shows "\<exists>n. rank_node s key = Some n \<and>
     n = length (filter (\<lambda>x. comp s (val (heap s) x) key) (inorder t)) \<and>
     n < sz t \<and> equiv (comp s) (val (heap s) (inorder t ! n)) key \<and>
     (\<forall>i<n. comp s (val (heap s) (inorder t ! i)) key)"
proof -
  let ?P = "\<lambda>x. \<not> comp s (val (heap s) x) key"
  let ?Q = "\<lambda>x. comp s (val (heap s) x) key"
  define x where "x = first_from ?P (inorder t) (header s)"
  define xs where "xs = inorder t"
  let ?n = "length (filter ?Q xs)"
  have swo: "strict_weak_order (comp s)" and ord: "ordered s xs"
    using assms(1) by (auto simp: wf_tree_def xs_def)
  have rl: "rank_loop s key 0 (header s) (root_ptr t) = Some (0 + ?n, x)"
    unfolding x_def xs_def using assms(1) by (intro rank_loop_spec) (auto simp: wf_tree_def)
  have hp: "rd s (header s) parent = Some (root_ptr t)"
    using assms by (auto simp: wf_tree_def header_ok_rd)
  have hn: "header s \<notin> set xs"
    using assms by (auto simp: wf_tree_def header_ok_def xs_def)
  have "(\<exists>a\<in>set xs. equiv (comp s) (val (heap s) a) key) \<longleftrightarrow>
      x \<noteq> header s \<and> \<not> comp s key (val (heap s) x)"
    using swo ord hn by (intro lower_bound_equiv) (auto simp: x_def xs_def)
  then have xh: "x \<noteq> header s" and xk: "\<not> comp s key (val (heap s) x)"
    using assms(2,3) by (auto simp: xs_def)
  from first_from_cases [of ?P xs "header s"] xh
  obtain ys zs where dec: "xs = ys @ x # zs" and px: "?P x" and ys: "\<forall>y\<in>set ys. ?Q y"
    unfolding x_def xs_def by auto
  have fl: "filter ?Q xs = ys"
    unfolding dec using ord swo ys px by (intro less_prefix) (auto simp: dec)
  have xin: "x \<in> nodes t" using dec by (auto simp: xs_def [symmetric] simp flip: set_inorder)
  have d: "rd s x data = Some (val (heap s) x)"
    by (rule wf_tree_rd_data [OF assms(1) xin])
  have rn: "rank_node s key = Some ?n"
    using rl hp d xh xk by (simp add: rank_node_def)
  have n: "?n = length ys" using fl by simp
  have "length ys < length xs" unfolding dec by simp
  then have "?n < sz t" using n by (simp add: xs_def)
  moreover have "xs ! length ys = x" unfolding dec by simp
  then have nth: "xs ! ?n = x" using n by simp
  moreover note nth
  moreover have "equiv (comp s) (val (heap s) x) key" using px xk by (simp add: equiv_def)
  moreover have "\<forall>i<?n. ?Q (xs ! i)"
  proof (intro allI impI)
    fix i assume "i < ?n"
    then have i: "i < length ys" using n by simp
    then have "xs ! i = ys ! i" unfolding dec by (simp add: nth_append)
    moreover have "ys ! i \<in> set ys" using i by simp
    ultimately show "?Q (xs ! i)" using ys by simp
  qed
  ultimately show ?thesis using rn unfolding xs_def by simp
qed

lemma insert_unique_loop_found:
  "shape (heap s) par t \<Longrightarrow> ordered s (inorder t) \<Longrightarrow> strict_weak_order (comp s) \<Longrightarrow>
   \<exists>a\<in>nodes t. equiv (comp s) (val (heap s) a) v \<Longrightarrow>
   \<exists>b\<in>nodes t. equiv (comp s) (val (heap s) b) v \<and>
     insert_unique_loop s v (the (root_ptr t)) = Some (s, b, False)"
proof (induction t arbitrary: par)
  case Lf
  then show ?case by simp
next
  case (Nd l a r)
  have ol: "ordered s (inorder l)" and or: "ordered s (inorder r)"
    and la: "\<forall>x\<in>nodes l. \<not> comp s (val (heap s) a) (val (heap s) x)"
    and ar: "\<forall>y\<in>nodes r. \<not> comp s (val (heap s) y) (val (heap s) a)"
    using Nd.prems(2) by (auto simp: ordered_append ordered_Cons)
  have sl: "shape (heap s) (Some a) l" and sr: "shape (heap s) (Some a) r"
    using Nd.prems(1) by auto
  note rds = shape_rd [OF Nd.prems(1)]
  from Nd.prems(4) obtain e where e: "e \<in> nodes (Nd l a r)" "\<not> comp s (val (heap s) e) v"
    "\<not> comp s v (val (heap s) e)" by (auto simp: equiv_def)
  show ?case
  proof (cases "comp s v (val (heap s) a)")
    case True
    have "e \<noteq> a" using True e(3) by auto
    moreover have "e \<notin> nodes r"
    proof
      assume "e \<in> nodes r"
      then have "\<not> comp s (val (heap s) e) (val (heap s) a)" using ar by simp
      then have "comp s v (val (heap s) e)" using swo_less_le [OF Nd.prems(3) True] by blast
      then show False using e(3) by simp
    qed
    ultimately have el: "e \<in> nodes l" using e(1) by auto
    then have ex: "\<exists>a\<in>nodes l. equiv (comp s) (val (heap s) a) v"
      using e by (auto simp: equiv_def)
    from Nd.IH(1) [OF sl ol Nd.prems(3) ex]
    obtain b where b: "b \<in> nodes l" "equiv (comp s) (val (heap s) b) v"
      "insert_unique_loop s v (the (root_ptr l)) = Some (s, b, False)" by blast
    have "l \<noteq> Lf" using el by auto
    then obtain ll la lr where l: "l = Nd ll la lr" by (cases l) auto
    have "insert_unique_loop s v a = insert_unique_loop s v la"
      using True by (subst insert_unique_loop.simps) (simp add: rds l)
    then show ?thesis using b l by auto
  next
    case nlt: False
    show ?thesis
    proof (cases "comp s (val (heap s) a) v")
      case False
      then have "insert_unique_loop s v a = Some (s, a, False)"
        using nlt by (subst insert_unique_loop.simps) (simp add: rds)
      moreover have "equiv (comp s) (val (heap s) a) v" using nlt False by (simp add: equiv_def)
      ultimately show ?thesis by auto
    next
      case True
      have "e \<noteq> a" using True e(2) by auto
      moreover have "e \<notin> nodes l"
      proof
        assume "e \<in> nodes l"
        then have "\<not> comp s (val (heap s) a) (val (heap s) e)" using la by simp
        then have "comp s (val (heap s) e) v" using swo_le_less [OF Nd.prems(3) _ True] by blast
        then show False using e(2) by simp
      qed
      ultimately have er: "e \<in> nodes r" using e(1) by auto
      then have ex: "\<exists>a\<in>nodes r. equiv (comp s) (val (heap s) a) v"
        using e by (auto simp: equiv_def)
      from Nd.IH(2) [OF sr or Nd.prems(3) ex]
      obtain b where b: "b \<in> nodes r" "equiv (comp s) (val (heap s) b) v"
        "insert_unique_loop s v (the (root_ptr r)) = Some (s, b, False)" by blast
      have "r \<noteq> Lf" using er by auto
      then obtain rl ra rr where r: "r = Nd rl ra rr" by (cases r) auto
      have "insert_unique_loop s v a = insert_unique_loop s v ra"
        using True nlt by (subst insert_unique_loop.simps) (simp add: rds r)
      then show ?thesis using b r by auto
    qed
  qed
qed

lemma insert_unique_node_found:
  assumes "wf_tree s t" and "a \<in> nodes t" and "equiv (comp s) (val (heap s) a) v"
  shows "\<exists>b\<in>nodes t. equiv (comp s) (val (heap s) b) v \<and>
     insert_unique_node s v = Some (s, b, False)"
proof -
  from assms(2) obtain l x r where t: "t = Nd l x r" by (cases t) auto
  have hp: "rd s (header s) parent = Some (Some x)"
    using assms(1) t by (auto simp: wf_tree_def header_ok_rd)
  from insert_unique_loop_found [of s "Some (header s)" t v] assms
  obtain b where "b \<in> nodes t" "equiv (comp s) (val (heap s) b) v"
    "insert_unique_loop s v (the (root_ptr t)) = Some (s, b, False)"
    by (auto simp: wf_tree_def)
  then show ?thesis using hp t by (auto simp: insert_unique_node_def)
qed


subsection \<open>Iterator increment\<close>

lemma inorder_Nil [simp]: "inorder t = [] \<longleftrightarrow> t = Lf"
  by (cases t) auto

lemma leftmost_spec:
  "shape (heap s) par t \<Longrightarrow> t \<noteq> Lf \<Longrightarrow> leftmost s (the (root_ptr t)) = Some (hd (inorder t))"
proof (induction t arbitrary: par)
  case Lf
  then show ?case by simp
next
  case (Nd l a r)
  note rds = shape_rd [OF Nd.prems(1)]
  show ?case
  proof (cases l)
    case Lf
    then show ?thesis by (subst leftmost.simps) (simp add: rds)
  next
    case (Nd ll la lr)
    have "leftmost s a = leftmost s la"
      by (subst leftmost.simps) (simp add: rds Nd)
    moreover have "leftmost s (the (root_ptr l)) = Some (hd (inorder l))"
      using Nd.IH(1) [of "Some a"] Nd.prems Nd by auto
    moreover have "hd (inorder l @ a # inorder r) = hd (inorder l)"
      using Nd by (simp add: hd_append)
    moreover have "the (root_ptr l) = la" using Nd by simp
    ultimately show ?thesis by simp
  qed
qed


text \<open>From the last node of a subtree the climbing loop of \<open>operator++\<close> reaches the root
  of the subtree.\<close>

lemma inc_climb_spine:
  "shape (heap s) par (Nd l a r) \<Longrightarrow>
   \<exists>px. rd s (last (inorder (Nd l a r))) parent = Some px \<and>
        rd s (last (inorder (Nd l a r))) right = Some None \<and>
        inc_climb s (last (inorder (Nd l a r))) px = inc_climb s a par"
proof (induction r arbitrary: l a par)
  case Lf
  then show ?case by (auto simp: rd_def)
next
  case (Nd rl ra rr)
  have sr: "shape (heap s) (Some a) (Nd rl ra rr)" using Nd.prems by simp
  from Nd.IH(2) [OF sr] obtain px where px:
    "rd s (last (inorder (Nd rl ra rr))) parent = Some px"
    "rd s (last (inorder (Nd rl ra rr))) right = Some None"
    "inc_climb s (last (inorder (Nd rl ra rr))) px = inc_climb s ra (Some a)" by blast
  have "inc_climb s ra (Some a) = inc_climb s a par"
    by (subst inc_climb.simps) (simp add: shape_rd [OF Nd.prems])
  with px show ?case by simp
qed

lemma inc_last_subtree:
  assumes "shape (heap s) par (Nd l a r)"
  shows "inc s (last (inorder (Nd l a r))) = do {
           (node', p') \<leftarrow> inc_climb s a par;
           nr \<leftarrow> rd s node' right;
           Some (if nr \<noteq> Some p' then p' else node') }"
proof -
  from inc_climb_spine [OF assms] obtain px where
    "rd s (last (inorder (Nd l a r))) parent = Some px"
    "rd s (last (inorder (Nd l a r))) right = Some None"
    "inc_climb s (last (inorder (Nd l a r))) px = inc_climb s a par" by blast
  then show ?thesis unfolding inc_def by simp
qed

lemma root_ptr_in: "root_ptr t = Some a \<Longrightarrow> a \<in> nodes t"
  by (cases t) auto

lemma inc_in_tree:
  "shape (heap s) par t \<Longrightarrow> Suc i < sz t \<Longrightarrow> inc s (inorder t ! i) = Some (inorder t ! Suc i)"
proof (induction t arbitrary: i par)
  case Lf
  then show ?case by simp
next
  case (Nd l a r)
  have sl: "shape (heap s) (Some a) l" and sr: "shape (heap s) (Some a) r"
    using Nd.prems(1) by auto
  note rds = shape_rd [OF Nd.prems(1)]
  consider "Suc i < sz l" | "Suc i = sz l" | "i = sz l" | "sz l < i" by linarith
  then show ?case
  proof cases
    case 1
    then show ?thesis using Nd.IH(1) [OF sl 1] by (simp add: nth_append)
  next
    case 2
    then obtain ll la lr where l: "l = Nd ll la lr" by (cases l) auto
    have "last (inorder l) = inorder l ! (length (inorder l) - 1)"
      using l by (intro last_conv_nth) simp
    then have x: "inorder (Nd l a r) ! i = last (inorder l)"
      using 2 [symmetric] by (simp add: nth_append)
    have y: "inorder (Nd l a r) ! Suc i = a"
      using 2 [symmetric] by (simp add: nth_append)
    have ne: "root_ptr r \<noteq> Some la"
      using Nd.prems(1) l root_ptr_in [of r la] by auto
    have c: "inc_climb s la (Some a) = Some (la, a)"
      using ne by (subst inc_climb.simps) (simp add: rds)
    have "rd s la right = Some (root_ptr lr)"
      using sl l by (simp add: shape_rd)
    moreover have "root_ptr lr \<noteq> Some a"
      using Nd.prems(1) l root_ptr_in [of lr a] by auto
    ultimately have "inc s (last (inorder l)) = Some a"
      using inc_last_subtree [of s "Some a" ll la lr] sl l c by simp
    then show ?thesis using x y by simp
  next
    case 3
    then have "r \<noteq> Lf" using Nd.prems(2) by auto
    then obtain rl ra rr where r: "r = Nd rl ra rr" by (cases r) auto
    have x: "inorder (Nd l a r) ! i = a" using 3 by (simp add: nth_append)
    have "hd (inorder r) = inorder r ! 0"
      using r by (intro hd_conv_nth) simp
    then have y: "inorder (Nd l a r) ! Suc i = hd (inorder r)"
      using 3 by (simp add: nth_append)
    have "leftmost s ra = Some (hd (inorder r))"
      using leftmost_spec [OF sr] r by simp
    then have "inc s a = Some (hd (inorder r))"
      unfolding inc_def by (simp add: rds r)
    then show ?thesis using x y by simp
  next
    case 4
    then obtain j where j: "i = Suc (sz l + j)" by (metis less_iff_Suc_add)
    have "Suc j < sz r" using Nd.prems(2) j by simp
    from Nd.IH(2) [OF sr this] show ?thesis using j by (simp add: nth_append)
  qed
qed

lemma inc_last:
  assumes "wf_tree s t" and "t \<noteq> Lf"
  shows "inc s (last (inorder t)) = Some (header s)"
proof -
  from assms(2) obtain l a r where t: "t = Nd l a r" by (cases t) auto
  have sh: "shape (heap s) (Some (header s)) (Nd l a r)"
    and hn: "header s \<noteq> a" "header s \<notin> nodes l" "header s \<notin> nodes r"
    using assms(1) t by (auto simp: wf_tree_def header_ok_def)
  have hr: "rd s (header s) right = Some (Some (last (inorder (Nd l a r))))"
    and hp: "rd s (header s) parent = Some (Some a)"
    using assms(1) t by (auto simp: wf_tree_def header_ok_rd)
  note rds = shape_rd [OF sh]
  have ra: "root_ptr r \<noteq> Some (header s)" using hn root_ptr_in [of r "header s"] by auto
  show ?thesis
  proof (cases r)
    case Lf
    have "inc_climb s (header s) (Some a) = Some (header s, a)"
      using hn by (subst inc_climb.simps) (simp add: rds Lf)
    then have "inc_climb s a (Some (header s)) = Some (header s, a)"
      using Lf hr hp by (subst inc_climb.simps) simp
    then show ?thesis
      using inc_last_subtree [OF sh] hr Lf t by simp
  next
    case (Nd rl ra rr)
    have "last (inorder (Nd l a r)) \<in> nodes r"
      using Nd by (metis inorder.simps(2) inorder_Nil last_appendR last_in_set set_inorder
          atree.distinct(1) last_ConsR list.distinct(1))
    then have "last (inorder (Nd l a r)) \<noteq> a" using sh by auto
    then have "inc_climb s a (Some (header s)) = Some (a, header s)"
      using hr by (subst inc_climb.simps) simp
    then show ?thesis
      using inc_last_subtree [OF sh] ra t by (simp add: rds)
  qed
qed

section \<open>The splice of erase\<close>

subsection \<open>Subtrees and paths\<close>


lemma sub_root: "sub t a = Nd l b r \<Longrightarrow> b = a"
  by (induction t) (auto split: if_splits)

lemma sub_in: "sub t a \<noteq> Lf \<Longrightarrow> a \<in> nodes t"
  by (induction t) (auto split: if_splits)






subsection \<open>Decrementing the sizes up to the header\<close>


lemma dec_on_empty [simp]: "dec_on {} h = h"
  by (simp add: dec_on_def fun_eq_iff)




subsection \<open>Reading and writing allocated nodes\<close>










subsection \<open>The first node of a tree and the tree without it\<close>











subsection \<open>The splice of the first node of the right subtree\<close>





subsection \<open>The last node of a tree and the tree without it\<close>











subsection \<open>The splice of the last node of the left subtree\<close>





subsection \<open>Concrete trees with a root of two children\<close>





section \<open>Claims about the queries\<close>

lemma at_spec:
  assumes "wf_tree s t"
  shows "(t = Lf \<longrightarrow> at s m key = Some (Inl Domain_error)) \<and>
     (t \<noteq> Lf \<and> (\<forall>a\<in>nodes t. \<not> equiv (comp s) (val (heap s) a) key) \<longrightarrow>
        at s m key = Some (Inl Out_of_range)) \<and>
     ((\<exists>a\<in>nodes t. equiv (comp s) (val (heap s) a) key) \<longrightarrow>
        (\<exists>p\<in>nodes t. equiv (comp s) (val (heap s) p) key \<and>
           at s m key = Some (Inr (m (val (heap s) p)))))"
proof -
  have e: "empty s = Some (t = Lf)" by (rule empty_spec [OF assms])
  from find_node_spec [OF assms, of key] obtain p where p: "find_node s key = Some p"
    "if \<exists>a\<in>nodes t. equiv (comp s) (val (heap s) a) key
     then p \<in> nodes t \<and> equiv (comp s) (val (heap s) p) key else p = header s" by blast
  have hn: "header s \<notin> nodes t" using assms by (auto simp: wf_tree_def header_ok_def)
  show ?thesis
  proof (cases "\<exists>a\<in>nodes t. equiv (comp s) (val (heap s) a) key")
    case True
    then have pin: "p \<in> nodes t" and pe: "equiv (comp s) (val (heap s) p) key"
      using p(2) by auto
    have "t \<noteq> Lf" using pin by auto
    moreover have "p \<noteq> header s" using pin hn by auto
    moreover have "rd s p data = Some (val (heap s) p)" by (rule wf_tree_rd_data [OF assms pin])
    ultimately have "at s m key = Some (Inr (m (val (heap s) p)))"
      using e p(1) by (simp add: at_def end_it_def)
    then show ?thesis using True pin pe by auto
  next
    case False
    then have "p = header s" using p(2) by simp
    then have "at s m key = Some (if t = Lf then Inl Domain_error else Inl Out_of_range)"
      using e p(1) by (simp add: at_def end_it_def)
    then show ?thesis using False by auto
  qed
qed

text \<open>
  C3.  In a well-formed tree \<open>s\<close> that holds the nodes \<open>inorder t\<close>, in this order,
  \<open>size()\<close> is their number \<open>n\<close>, and \<open>select(k)\<close> is the node at position \<open>k\<close> of
  \<open>inorder t\<close> when \<open>k < n\<close>, and \<open>end()\<close> when \<open>k \<ge> n\<close>.  On the empty tree \<open>select(0)\<close> is
  \<open>end()\<close>.
\<close>

theorem select_node_position:
  assumes "wf_tree s t"
  shows "tree_size s = Some (sz t) \<and>
         select_node s k = Some (if k < sz t then inorder t ! k else end_it s)"
  using tree_size_spec [OF assms] select_node_spec [OF assms] by (simp add: end_it_def)

theorem select_node_position_witness:
  "wf_tree node_213 shape_213 \<and> tree_size node_213 = Some 3 \<and>
   select_node node_213 0 = Some 2 \<and> select_node node_213 2 = Some 3 \<and>
   select_node node_213 3 = Some (end_it node_213) \<and>
   wf_tree (sb_tree_new (<) (0::int)) Lf \<and>
   select_node (sb_tree_new (<) (0::int)) 0 = Some (end_it (sb_tree_new (<) (0::int)))"
  using select_node_position [OF wf_tree_213, of 0] select_node_position [OF wf_tree_213, of 2]
    select_node_position [OF wf_tree_213, of 3]
    select_node_position [OF wf_tree_new [OF strict_weak_order_less], of 0 0]
    wf_tree_213 wf_tree_new [OF strict_weak_order_less, of 0]
  by (simp add: shape_213_def)

text \<open>
  C4.  In a well-formed tree, \<open>rank\<close> of a key to which a stored element is equivalent is
  the number of stored elements less than the key; the element at that position is
  equivalent to the key and every element before it is less, so it is the position of the
  first occurrence.  When no two stored elements are equivalent, \<open>rank(*select(k)) = k\<close> for
  every \<open>k < size()\<close>.
\<close>

theorem rank_node_select_node:
  assumes "wf_tree s t"
  shows "(\<forall>a\<in>nodes t. \<forall>key. equiv (comp s) (val (heap s) a) key \<longrightarrow>
           (\<exists>n. rank_node s key = Some n \<and>
              n = length (filter (\<lambda>x. comp s (val (heap s) x) key) (inorder t)) \<and>
              n < sz t \<and> equiv (comp s) (val (heap s) (inorder t ! n)) key \<and>
              (\<forall>i<n. comp s (val (heap s) (inorder t ! i)) key))) \<and>
         ((\<forall>a\<in>nodes t. \<forall>b\<in>nodes t. a \<noteq> b \<longrightarrow>
              \<not> equiv (comp s) (val (heap s) a) (val (heap s) b)) \<longrightarrow>
          (\<forall>k<sz t. do { p \<leftarrow> select_node s k; d \<leftarrow> rd s p data; rank_node s d } = Some k))"
proof (intro conjI ballI allI impI)
  fix a key
  assume "a \<in> nodes t" "equiv (comp s) (val (heap s) a) key"
  then show "\<exists>n. rank_node s key = Some n \<and>
      n = length (filter (\<lambda>x. comp s (val (heap s) x) key) (inorder t)) \<and>
      n < sz t \<and> equiv (comp s) (val (heap s) (inorder t ! n)) key \<and>
      (\<forall>i<n. comp s (val (heap s) (inorder t ! i)) key)"
    by (rule rank_node_spec [OF assms])
next
  fix k
  assume nodup: "\<forall>a\<in>nodes t. \<forall>b\<in>nodes t. a \<noteq> b \<longrightarrow>
      \<not> equiv (comp s) (val (heap s) a) (val (heap s) b)" and k: "k < sz t"
  define x where "x = inorder t ! k"
  have xin: "x \<in> nodes t" using k unfolding x_def by (metis length_inorder nth_mem set_inorder)
  have swo: "strict_weak_order (comp s)" using assms by (simp add: wf_tree_def)
  have xx: "equiv (comp s) (val (heap s) x) (val (heap s) x)"
    using swo by (simp add: equiv_def strict_weak_order_def)
  from rank_node_spec [OF assms xin xx] obtain n where n: "rank_node s (val (heap s) x) = Some n"
    "n < sz t" "equiv (comp s) (val (heap s) (inorder t ! n)) (val (heap s) x)" by blast
  have "inorder t ! n \<in> nodes t" using n(2) by (metis length_inorder nth_mem set_inorder)
  then have "inorder t ! n = x" using nodup n(3) xin by blast
  moreover have "distinct (inorder t)"
    using assms shape_distinct by (auto simp: wf_tree_def)
  ultimately have "n = k"
    using k n(2) unfolding x_def by (simp add: nth_eq_iff_index_eq)
  moreover have "select_node s k = Some x"
    using select_node_spec [OF assms, of k] k by (simp add: x_def)
  moreover have "rd s x data = Some (val (heap s) x)" by (rule wf_tree_rd_data [OF assms xin])
  ultimately show "do { p \<leftarrow> select_node s k; d \<leftarrow> rd s p data; rank_node s d } = Some k"
    using n(1) by simp
qed

theorem rank_node_select_node_witness:
  "wf_tree node_213 shape_213 \<and>
   rank_node node_213 3 = Some 2 \<and>
   do { p \<leftarrow> select_node node_213 1; d \<leftarrow> rd node_213 p data; rank_node node_213 d } = Some 1"
proof -
  have v: "val (heap node_213) 1 = 2" "val (heap node_213) 2 = 1" "val (heap node_213) 3 = 3"
    "val (heap node_213) (Suc 0) = 2"
    by (simp_all add: val_def node_213_def)
  have c: "comp node_213 = (<)" by (simp add: node_213_def)
  from rank_node_select_node [OF wf_tree_213]
  have a: "\<forall>a\<in>nodes shape_213. \<forall>key. equiv (comp node_213) (val (heap node_213) a) key \<longrightarrow>
      (\<exists>n. rank_node node_213 key = Some n \<and>
         n = length (filter (\<lambda>x. comp node_213 (val (heap node_213) x) key) (inorder shape_213)))"
    and b: "(\<forall>a\<in>nodes shape_213. \<forall>b\<in>nodes shape_213. a \<noteq> b \<longrightarrow>
              \<not> equiv (comp node_213) (val (heap node_213) a) (val (heap node_213) b)) \<longrightarrow>
      (\<forall>k<sz shape_213. do { p \<leftarrow> select_node node_213 k; d \<leftarrow> rd node_213 p data;
          rank_node node_213 d } = Some k)"
    by blast+
  have "rank_node node_213 3 = Some 2"
    using a [rule_format, of 3 3] by (simp add: shape_213_def v c equiv_def)
  moreover have "do { p \<leftarrow> select_node node_213 1; d \<leftarrow> rd node_213 p data;
      rank_node node_213 d } = Some 1"
    using b by (simp add: shape_213_def v c equiv_def)
  ultimately show ?thesis using wf_tree_213 by simp
qed

text \<open>
  C5.  When a well-formed tree holds an element equivalent to \<open>v\<close>, \<open>insert_unique(v)\<close>
  returns a stored node equivalent to \<open>v\<close> and the flag \<open>false\<close>, and the tree after the call
  is the tree before it: no node, size, link or payload has changed.
\<close>

theorem insert_unique_node_existing:
  assumes "wf_tree s t" and "a \<in> nodes t" and "equiv (comp s) (val (heap s) a) v"
  shows "\<exists>b\<in>nodes t. equiv (comp s) (val (heap s) b) v \<and>
     insert_unique_node s v = Some (s, b, False)"
  using assms by (rule insert_unique_node_found)

theorem insert_unique_node_existing_witness:
  "wf_tree node_213 shape_213 \<and> 3 \<in> nodes shape_213 \<and>
   equiv (comp node_213) (val (heap node_213) 3) 3 \<and>
   insert_unique_node node_213 3 = Some (node_213, 3, False) \<and>
   (\<exists>s. insert_unique_node (sb_tree_new (<) 0) (5::int) = Some (s, 1, True) \<and>
        insert_unique_node s 5 = Some (s, 1, False) \<and> tree_size s = Some 1)"
proof -
  have v: "val (heap node_213) 1 = 2" "val (heap node_213) 2 = 1" "val (heap node_213) 3 = 3"
    "val (heap node_213) (Suc 0) = 2"
    by (simp_all add: val_def node_213_def)
  have c: "comp node_213 = (<)" by (simp add: node_213_def)
  have h: "3 \<in> nodes shape_213" "equiv (comp node_213) (val (heap node_213) 3) 3"
    by (simp_all add: shape_213_def v c equiv_def)
  from insert_unique_node_existing [OF wf_tree_213 h]
  have "insert_unique_node node_213 3 = Some (node_213, 3, False)"
    by (auto simp: shape_213_def v c equiv_def)
  moreover have "\<exists>s. insert_unique_node (sb_tree_new (<) 0) (5::int) = Some (s, 1, True) \<and>
        insert_unique_node s 5 = Some (s, 1, False) \<and> tree_size s = Some 1"
    by (simp add: sb_tree_defs sb_tree_loops cong: bind_weak_cong)
  ultimately show ?thesis using wf_tree_213 h by simp
qed

text \<open>
  C9.  For the element type of the integers whose member \<open>data\<close> is the successor, \<open>at(2)\<close>
  on \<open>tree_213\<close> does not return the stored element \<open>2\<close> but its member, \<open>3\<close>.  The two
  failures are as claimed: the empty tree gives the "uninitialized" error, and a key
  without an equivalent element gives "out of range".
\<close>

theorem at_returns_member:
  "at node_213 (\<lambda>x. x + 1) 2 = Some (Inr 3) \<and>
   rd node_213 1 data = Some 2 \<and> find_node node_213 2 = Some 1 \<and>
   at node_213 (\<lambda>x. x + 1) 5 = Some (Inl Out_of_range) \<and>
   at (sb_tree_new (<) (0::int)) (\<lambda>x. x + 1) 2 = Some (Inl Domain_error)"
  by (simp add: node_213_def sb_tree_defs sb_tree_loops cong: bind_weak_cong)

section \<open>Erasing at the end position\<close>

text \<open>
  C10.  The single-position erase called with the end iterator does nothing: the store,
  hence every node, every size and the in-order sequence, is the one before the call, and
  the iterator returned is \<open>end()\<close>.
\<close>

theorem erase_pos_end_noop: "erase_pos s (end_it s) = Some (s, end_it s)"
  by (simp add: erase_pos_def)

section \<open>Decrementing an iterator at the root\<close>

text \<open>
  C7.  In the tree \<open>tree_213\<close> the iterator at the root (value \<open>2\<close>, address 1) is what the
  increment of the iterator at the node of value \<open>1\<close> (address 2) yields, so its predecessor
  is that node; \<open>operator--\<close> takes the first branch, because the parent of the root is the
  header and the parent of the header is the root, and yields the right child of the root
  (value \<open>3\<close>, address 3).
\<close>

theorem dec_root_yields_right_child:
  "inc node_213 2 = Some 1 \<and> dec node_213 1 = Some (Some 3) \<and>
   rd node_213 2 data = Some 1 \<and> rd node_213 1 data = Some 2 \<and> rd node_213 3 data = Some 3 \<and>
   tree_213 = Some node_213"
  by (simp add: tree_213_eq) (simp add: node_213_def sb_tree_defs sb_tree_loops cong: bind_weak_cong)

section \<open>The replacement chosen by erase\<close>




section \<open>Erase by key\<close>

lemma erase_key_run_state:
  assumes run: "erase_key_run s0 k0 j0 = Some r0"
  shows "fst r0 = s0"
proof (rule erase_key_run.raw_induct [where P = "\<lambda>s k j r. fst r = s", OF _ run], goal_cases)
  case (1 f s key_of job r)
  show ?case
  proof (cases job)
    case (By_key key)
    with 1(2) obtain first lst where "f s key_of (Loop first lst 0) = Some r"
      by (auto split: Option.bind_splits)
    then show ?thesis by (rule 1(1))
  next
    case (Loop first lst n)
    show ?thesis
    proof (cases "first = lst")
      case True
      with 1(2) Loop show ?thesis by auto
    next
      case False
      with 1(2) Loop obtain first' s1 k where a: "f s key_of (By_key (key_of first)) = Some (s1, k)"
        and b: "f s1 key_of (Loop first' lst (n + 1)) = Some r"
        by (auto split: Option.bind_splits)
      from 1(1) [OF a] have "s1 = s" by simp
      with 1(1) [OF b] show ?thesis by simp
    qed
  qed
qed

lemma tree_222_eq: "tree_222 = Some node_222"
  by (simp add: tree_222_def node_222_def sb_tree_defs sb_tree_loops fun_eq_iff
      cong: bind_weak_cong)

lemma erase_key_run_222:
  assumes run: "erase_key_run s0 k0 j0 = Some r0"
  shows "s0 = node_222 \<and> k0 = val (heap node_222) \<and>
   (j0 = By_key 2 \<or> (\<exists>first n. j0 = Loop first 0 n \<and> first \<in> {1, 2, 3})) \<longrightarrow> False"
proof (rule erase_key_run.raw_induct [where P = "\<lambda>s k j r. s = node_222 \<and> k = val (heap node_222) \<and>
   (j = By_key 2 \<or> (\<exists>first n. j = Loop first 0 n \<and> first \<in> {1, 2, 3})) \<longrightarrow> False", OF _ run],
   goal_cases)
  case (1 f s key_of job r)
  have lb: "lower_bound_node node_222 2 = Some 1" and ub: "upper_bound_node node_222 2 = Some 0"
    by (simp_all add: node_222_def sb_tree_defs sb_tree_loops cong: bind_weak_cong)
  have v: "val (heap node_222) 1 = 2" "val (heap node_222) 2 = 2" "val (heap node_222) 3 = 2"
    "val (heap node_222) (Suc 0) = 2"
    by (simp_all add: val_def node_222_def)
  show ?case
  proof (intro impI, elim conjE)
    assume s: "s = node_222" and k: "key_of = val (heap node_222)"
      and "job = By_key 2 \<or> (\<exists>first n. job = Loop first 0 n \<and> first \<in> {1, 2, 3})"
    then show False
    proof (elim disjE)
      assume j: "job = By_key 2"
      with 1(2) s lb ub have "f node_222 key_of (Loop 1 0 0) = Some r" by simp
      then show False using 1(1) [of node_222 key_of "Loop 1 0 0" r] k by simp
    next
      assume "\<exists>first n. job = Loop first 0 n \<and> first \<in> {1, 2, 3}"
      then obtain first n where j: "job = Loop first 0 n" and fi: "first \<in> {1, 2, 3}" by blast
      then have "first \<noteq> 0" by auto
      with 1(2) s j obtain s1 m where "f node_222 key_of (By_key (key_of first)) = Some (s1, m)"
        by (auto split: Option.bind_splits)
      moreover have "key_of first = 2" using fi v k by auto
      ultimately show False using 1(1) [of node_222 key_of "By_key 2" "(s1, m)"] k by simp
    qed
  qed
qed

text \<open>
  C8.  Erase by key never removes an element: whenever it returns, the tree is the one it
  was given, whatever count it returns.  After three calls \<open>insert_equal(2)\<close> the size is 3,
  and \<open>erase(2)\<close>, for an element type whose conversion from an iterator yields the element
  the iterator points to, does not return at all: each call of the template finds the
  range of the key non-empty and calls the template again with its first iterator.
\<close>

theorem erase_key_never_erases:
  "(erase_key s key_of key = None \<or> (\<exists>n. erase_key s key_of key = Some (s, n))) \<and>
   tree_222 = Some node_222 \<and> tree_size node_222 = Some 3 \<and>
   erase_key node_222 (val (heap node_222)) 2 = None"
proof -
  have "erase_key s key_of key = None \<or> (\<exists>n. erase_key s key_of key = Some (s, n))"
  proof (cases "erase_key s key_of key")
    case None
    then show ?thesis by simp
  next
    case (Some r)
    then have "fst r = s" unfolding erase_key_def by (rule erase_key_run_state)
    with Some show ?thesis by (cases r) auto
  qed
  moreover have "erase_key node_222 (val (heap node_222)) 2 = None"
  proof (cases "erase_key node_222 (val (heap node_222)) 2")
    case None
    then show ?thesis .
  next
    case (Some r)
    then have False unfolding erase_key_def using erase_key_run_222 by blast
    then show ?thesis ..
  qed
  moreover have "tree_size node_222 = Some 3"
    by (simp add: node_222_def tree_size_def rd_def size_or_zero_def)
  ultimately show ?thesis using tree_222_eq by simp
qed

end
